theory Spec2Isabelle
  imports Complex_Main "HOL-Library.Word"
begin

section \<open>JavaScript values used by the upload pipeline\<close>

text \<open>
  A JavaScript number is an IEEE 754 double: a finite value, NaN, or one of the two
  infinities. A finite double is a rational of the form \<open>k * 2 ^ j\<close> with
  \<open>\<bar>k\<bar> < 2 ^ 53\<close> and \<open>- 1074 \<le> j\<close>, and is kept as that rational. Every arithmetic
  operation computes the exact result and rounds it to the nearest double, a tie going to
  the even significand. The sign of a zero is not modelled: no operand of the pipeline is
  negative, and the only divisors are unsigned integer attributes, whose zero is the
  positive zero.
\<close>

datatype js_number = Fin rat | NaN | PosInfinity | NegInfinity

text \<open>The position of the leading bit of a positive integer.\<close>

fun ilog2 :: "int \<Rightarrow> nat" where
  "ilog2 n = (if n < 2 then 0 else Suc (ilog2 (n div 2)))"

declare ilog2.simps [simp del]

text \<open>The exponent \<open>e\<close> with \<open>2 ^ e \<le> x < 2 ^ (e + 1)\<close>, for a positive \<open>x\<close>.\<close>

definition floor_log2 :: "rat \<Rightarrow> int" where
  "floor_log2 x =
     (let (p, q) = quotient_of x;
          d = int (ilog2 p) - int (ilog2 q)
      in if 2 powi d \<le> x then d else d - 1)"

text \<open>The nearest integer, a tie going to the even one.\<close>

definition rne :: "rat \<Rightarrow> int" where
  "rne t =
     (let f = \<lfloor>t\<rfloor>; r = t - of_int f
      in if r < 1 / 2 then f
         else if 1 / 2 < r then f + 1
         else if even f then f else f + 1)"

text \<open>
  The exponent of the last place of the doubles around a positive \<open>x\<close>: 52 binary places
  below the leading bit, and \<open>- 1074\<close> in the subnormal range.
\<close>

definition ulp_exponent :: "rat \<Rightarrow> int" where
  "ulp_exponent x = max (floor_log2 x) (- 1022) - 52"

definition fl_pos :: "rat \<Rightarrow> rat" where
  "fl_pos x = of_int (rne (x / 2 powi ulp_exponent x)) * 2 powi ulp_exponent x"

text \<open>Rounding to the nearest double, before the check for overflow.\<close>

definition fl :: "rat \<Rightarrow> rat" where
  "fl x = (if x = 0 then 0 else if 0 < x then fl_pos x else - fl_pos (- x))"

text \<open>The double for an exact result: an infinity once the rounded value needs an exponent above 1023.\<close>

definition js_of_rat :: "rat \<Rightarrow> js_number" where
  "js_of_rat x =
     (let y = fl x
      in if y \<noteq> 0 \<and> 1023 < floor_log2 \<bar>y\<bar>
         then (if 0 < y then PosInfinity else NegInfinity)
         else Fin y)"

text \<open>
  The number read from an attribute that holds an unsigned integer (the width of an
  image, the byte counts of a progress event).
\<close>

definition js_of_nat :: "nat \<Rightarrow> js_number" where
  "js_of_nat n = js_of_rat (of_nat n)"

fun js_neg :: "js_number \<Rightarrow> js_number" where
  "js_neg (Fin a) = Fin (- a)"
| "js_neg NaN = NaN"
| "js_neg PosInfinity = NegInfinity"
| "js_neg NegInfinity = PosInfinity"

text \<open>\<open>a / b\<close>: \<open>0 / 0\<close> and a quotient of two infinities are NaN, \<open>a / 0\<close> is an infinity.\<close>

fun js_div :: "js_number \<Rightarrow> js_number \<Rightarrow> js_number" where
  "js_div (Fin a) (Fin b) =
     (if b = 0 then (if a = 0 then NaN else if 0 < a then PosInfinity else NegInfinity)
      else js_of_rat (a / b))"
| "js_div NaN y = NaN"
| "js_div x NaN = NaN"
| "js_div (Fin a) y = Fin 0"
| "js_div x (Fin b) = (if 0 \<le> b then x else js_neg x)"
| "js_div x y = NaN"

fun js_mul :: "js_number \<Rightarrow> js_number \<Rightarrow> js_number" where
  "js_mul (Fin a) (Fin b) = js_of_rat (a * b)"
| "js_mul NaN y = NaN"
| "js_mul x NaN = NaN"
| "js_mul (Fin a) y = (if a = 0 then NaN else if 0 < a then y else js_neg y)"
| "js_mul x (Fin b) = (if b = 0 then NaN else if 0 < b then x else js_neg x)"
| "js_mul x y = (if x = y then PosInfinity else NegInfinity)"

fun js_add :: "js_number \<Rightarrow> js_number \<Rightarrow> js_number" where
  "js_add (Fin a) (Fin b) = js_of_rat (a + b)"
| "js_add NaN y = NaN"
| "js_add x NaN = NaN"
| "js_add (Fin a) y = y"
| "js_add x (Fin b) = x"
| "js_add x y = (if x = y then x else NaN)"

text \<open>\<open>Math.min\<close> of two arguments: NaN if either is NaN.\<close>

fun js_min :: "js_number \<Rightarrow> js_number \<Rightarrow> js_number" where
  "js_min NaN y = NaN"
| "js_min x NaN = NaN"
| "js_min NegInfinity y = NegInfinity"
| "js_min x NegInfinity = NegInfinity"
| "js_min PosInfinity y = y"
| "js_min x PosInfinity = x"
| "js_min (Fin a) (Fin b) = Fin (min a b)"

text \<open>
  \<open>Math.round\<close>: the nearest integer, halves going up. The result is computed from the
  double without an intermediate rounding, and is a double itself.
\<close>

fun js_round :: "js_number \<Rightarrow> js_number" where
  "js_round (Fin a) = Fin (of_int \<lfloor>a + 1 / 2\<rfloor>)"
| "js_round x = x"

section \<open>Preview naming (image-processing.ts)\<close>

text \<open>
  \<open>getThumbnailFilename\<close> is \<open>originalFilename.replace(/\.[^.]+$/, "")\<close> followed by
  \<open>-thumb.webp\<close>. The regular expression is matched as the engine does: start positions
  are tried from the left, and at a start position the pattern needs a dot, then one or
  more characters other than a dot, then the end of the string.
\<close>

fun match_extension_here :: "string \<Rightarrow> bool" where
  "match_extension_here [] = False"
| "match_extension_here (c # cs) =
     (c = CHR ''.'' \<and> cs \<noteq> [] \<and> list_all (\<lambda>x. x \<noteq> CHR ''.'') cs)"

fun replace_extension :: "string \<Rightarrow> string" where
  "replace_extension [] = []"
| "replace_extension (c # cs) =
     (if match_extension_here (c # cs) then [] else c # replace_extension cs)"

definition getThumbnailFilename :: "string \<Rightarrow> string" where
  "getThumbnailFilename originalFilename =
     (let baseName = replace_extension originalFilename in baseName @ ''-thumb.webp'')"

text \<open>
  The specification's wording, for comparison: the filename with the last dot and
  everything after it removed (a name without a dot has no extension and stays whole).
\<close>

definition strip_final_extension :: "string \<Rightarrow> string" where
  "strip_final_extension s =
     (if CHR ''.'' \<in> set s then rev (tl (dropWhile (\<lambda>x. x \<noteq> CHR ''.'') (rev s))) else s)"

section \<open>Capture date (image-processing.ts, extractImageDate)\<close>

text \<open>
  A \<open>Date\<close> object is its time value in milliseconds, or the invalid date. The
  conversion of local calendar fields to a time value (\<open>MakeDay\<close>, \<open>MakeTime\<close>, the
  host's time zone) belongs to the JavaScript runtime and is a parameter \<open>local_time\<close>
  of the model; \<open>time_clip\<close> is the range check every \<open>Date\<close> constructor applies.
\<close>

datatype js_date = Invalid_Date | Time_value int

definition time_clip :: "int \<Rightarrow> js_date" where
  "time_clip t = (if \<bar>t\<bar> \<le> 8640000000000000 then Time_value t else Invalid_Date)"

type_synonym local_time = "int \<Rightarrow> int \<Rightarrow> int \<Rightarrow> int \<Rightarrow> int \<Rightarrow> int \<Rightarrow> int"

text \<open>\<open>new Date(y, m, d, h, mi, s)\<close>; \<open>None\<close> is the argument NaN.\<close>

fun new_Date :: "local_time \<Rightarrow> int option \<Rightarrow> int option \<Rightarrow> int option \<Rightarrow>
    int option \<Rightarrow> int option \<Rightarrow> int option \<Rightarrow> js_date" where
  "new_Date lt (Some y) (Some m) (Some d) (Some h) (Some mi) (Some s) =
     time_clip (lt y m d h mi s)"
| "new_Date lt y m d h mi s = Invalid_Date"

text \<open>
  Strings are lists of code units below 256. \<open>split_char\<close> is \<open>s.split(c)\<close> for a
  one-character separator; \<open>nth_undefined\<close> is array destructuring, \<open>None\<close> being
  \<open>undefined\<close>.
\<close>

fun split_char :: "char \<Rightarrow> string \<Rightarrow> string list" where
  "split_char c [] = [[]]"
| "split_char c (x # xs) =
     (if x = c then [] # split_char c xs
      else (case split_char c xs of
              [] \<Rightarrow> [[x]]
            | y # ys \<Rightarrow> (x # y) # ys))"

definition nth_undefined :: "'a list \<Rightarrow> nat \<Rightarrow> 'a option" where
  "nth_undefined xs i = (if i < length xs then Some (xs ! i) else None)"

text \<open>
  \<open>parseInt(s)\<close> without a radix: leading white space is skipped, a sign is read, a
  \<open>0x\<close> prefix selects base 16, and the longest prefix of digits is the value; with
  no digit the result is NaN (\<open>None\<close>). The argument \<open>undefined\<close> is first converted
  to the string \<open>undefined\<close>.
\<close>

definition js_whitespace :: "char \<Rightarrow> bool" where
  "js_whitespace c = ((of_char c :: nat) \<in> {9, 10, 11, 12, 13, 32, 160})"

definition dec_digit :: "char \<Rightarrow> nat option" where
  "dec_digit c =
     (let n = (of_char c :: nat) in if 48 \<le> n \<and> n \<le> 57 then Some (n - 48) else None)"

definition hex_digit :: "char \<Rightarrow> nat option" where
  "hex_digit c =
     (let n = (of_char c :: nat) in
      if 48 \<le> n \<and> n \<le> 57 then Some (n - 48)
      else if 97 \<le> n \<and> n \<le> 102 then Some (n - 87)
      else if 65 \<le> n \<and> n \<le> 70 then Some (n - 55)
      else None)"

fun digits_prefix :: "(char \<Rightarrow> nat option) \<Rightarrow> nat \<Rightarrow> string \<Rightarrow> nat option \<Rightarrow> nat option" where
  "digits_prefix dig radix [] acc = acc"
| "digits_prefix dig radix (c # cs) acc =
     (case dig c of
        None \<Rightarrow> acc
      | Some d \<Rightarrow>
          digits_prefix dig radix cs
            (Some (radix * (case acc of None \<Rightarrow> 0 | Some a \<Rightarrow> a) + d)))"

definition parseInt :: "string option \<Rightarrow> int option" where
  "parseInt arg =
     (let s = (case arg of None \<Rightarrow> ''undefined'' | Some t \<Rightarrow> t);
          t = dropWhile js_whitespace s;
          negative = (t \<noteq> [] \<and> hd t = CHR ''-'');
          u = (if t \<noteq> [] \<and> (hd t = CHR ''-'' \<or> hd t = CHR ''+'') then tl t else t);
          magnitude =
            (if take 2 u = ''0x'' \<or> take 2 u = ''0X''
             then digits_prefix hex_digit 16 (drop 2 u) None
             else digits_prefix dec_digit 10 u None)
      in map_option (\<lambda>n. if negative then - int n else int n) magnitude)"

text \<open>
  A file as the pipeline sees it: its name, declared media type and last-modified time,
  and what the two libraries make of its bytes: the tags ExifReader loads (tag name and
  description, or an exception), and the width and height that the decoded image
  element reports, two unsigned 32-bit attributes (or a decoding error).
\<close>

datatype exif_load = Load_throws | Tags "(string \<times> string) list"

record File =
  name :: string
  mime_type :: string
  lastModified :: int
  exif :: exif_load
  decoded :: "(32 word \<times> 32 word) option"

text \<open>\<open>a || b\<close> on strings that may be undefined: the empty string is falsy.\<close>

definition truthy :: "string option \<Rightarrow> bool" where
  "truthy a = (case a of None \<Rightarrow> False | Some s \<Rightarrow> s \<noteq> [])"

definition js_or :: "string option \<Rightarrow> string option \<Rightarrow> string option" where
  "js_or a b = (if truthy a then a else b)"

definition dateString_of :: "(string \<times> string) list \<Rightarrow> string option" where
  "dateString_of tags =
     js_or (js_or (map_of tags ''DateTimeOriginal'') (map_of tags ''DateTime''))
       (map_of tags ''DateTimeDigitized'')"

text \<open>Lines 36 to 46: the date built from a truthy \<open>dateString\<close>.\<close>

definition parse_exif_date :: "local_time \<Rightarrow> string \<Rightarrow> js_date option" where
  "parse_exif_date lt dateString =
     (let parts = split_char CHR '' '' dateString;
          datePart = nth_undefined parts 0;
          timePart = nth_undefined parts 1
      in case datePart of
           None \<Rightarrow> None
         | Some dp \<Rightarrow>
            (let ymd = split_char CHR '':'' dp;
                 hms = (case timePart of
                          None \<Rightarrow> [''00'', ''00'', ''00'']
                        | Some tp \<Rightarrow> split_char CHR '':'' tp)
             in Some (new_Date lt
                  (parseInt (nth_undefined ymd 0))
                  (map_option (\<lambda>m. m - 1) (parseInt (nth_undefined ymd 1)))
                  (parseInt (nth_undefined ymd 2))
                  (parseInt (nth_undefined hms 0))
                  (parseInt (nth_undefined hms 1))
                  (parseInt (nth_undefined hms 2)))))"

text \<open>
  The \<open>try\<close> block: \<open>Some d\<close> when it returns the date \<open>d\<close>, \<open>None\<close> when it falls
  through to the fallback (no truthy date string, or an exception, which is caught and
  logged).
\<close>

definition exif_date :: "local_time \<Rightarrow> File \<Rightarrow> js_date option" where
  "exif_date lt f =
     (case exif f of
        Load_throws \<Rightarrow> None
      | Tags tags \<Rightarrow>
          (case dateString_of tags of
             None \<Rightarrow> None
           | Some dateString \<Rightarrow>
               if dateString \<noteq> [] then parse_exif_date lt dateString else None))"

definition extractImageDate :: "int \<Rightarrow> local_time \<Rightarrow> File \<Rightarrow> js_date" where
  "extractImageDate now lt f =
     (case exif_date lt f of
        Some d \<Rightarrow> d
      | None \<Rightarrow> if lastModified f \<noteq> 0 then time_clip (lastModified f) else Time_value now)"

section \<open>Preview size (image-processing.ts, generateThumbnail)\<close>

definition THUMBNAIL_MAX_SIZE :: nat where
  "THUMBNAIL_MAX_SIZE = 800"

text \<open>The literal \<open>0.8\<close> is the double nearest to eight tenths.\<close>

definition THUMBNAIL_QUALITY :: rat where
  "THUMBNAIL_QUALITY = fl (8 / 10)"

text \<open>Lines 73 to 81: the width and height given to the canvas.\<close>

definition thumbnail_dimensions :: "32 word \<Rightarrow> 32 word \<Rightarrow> js_number \<times> js_number" where
  "thumbnail_dimensions img_width img_height =
     (let width = js_of_nat (unat img_width);
          height = js_of_nat (unat img_height)
      in if unat img_width > THUMBNAIL_MAX_SIZE \<or> unat img_height > THUMBNAIL_MAX_SIZE
         then
           (let scale = js_min (js_div (js_of_nat THUMBNAIL_MAX_SIZE) width)
                               (js_div (js_of_nat THUMBNAIL_MAX_SIZE) height)
            in (js_round (js_mul width scale), js_round (js_mul height scale)))
         else (width, height))"

text \<open>
  Assigning a number to \<open>canvas.width\<close> converts it to an unsigned integer: a
  non-finite value becomes 0, a finite one is truncated (it is never negative here).
\<close>

fun canvas_size :: "js_number \<Rightarrow> nat" where
  "canvas_size (Fin a) = nat \<lfloor>a\<rfloor>"
| "canvas_size x = 0"

record thumbnail_blob =
  blob_width :: nat
  blob_height :: nat
  blob_type :: string
  blob_quality :: rat

text \<open>
  \<open>generateThumbnail\<close>: \<open>has_context\<close> says whether the canvas gives a 2d context,
  \<open>encodes w h\<close> whether \<open>toBlob\<close> yields a blob for a canvas of that size. A rejection
  is the rendering \<open>String(error)\<close> of its error.
\<close>

definition generateThumbnail :: "bool \<Rightarrow> (nat \<Rightarrow> nat \<Rightarrow> bool) \<Rightarrow> File \<Rightarrow> string + thumbnail_blob" where
  "generateThumbnail has_context encodes f =
     (if \<not> has_context then Inl ''Error: Failed to get canvas context''
      else case decoded f of
        None \<Rightarrow> Inl ''Error: Failed to load image''
      | Some (w, h) \<Rightarrow>
          (let (width, height) = thumbnail_dimensions w h;
               cw = canvas_size width;
               ch = canvas_size height
           in if encodes cw ch
              then Inr \<lparr>blob_width = cw, blob_height = ch,
                        blob_type = ''image/webp'', blob_quality = THUMBNAIL_QUALITY\<rparr>
              else Inl ''Error: Failed to generate thumbnail''))"

record ProcessedImage =
  original :: File
  thumbnail :: thumbnail_blob
  originalFilename :: string
  thumbnailFilename :: string
  date :: js_date

text \<open>
  \<open>processImage\<close> awaits both tasks with \<open>Promise.all\<close>; the date task never rejects,
  so the call rejects exactly when the thumbnail task does.
\<close>

definition processImage :: "bool \<Rightarrow> (nat \<Rightarrow> nat \<Rightarrow> bool) \<Rightarrow> int \<Rightarrow> local_time \<Rightarrow> File
    \<Rightarrow> string + ProcessedImage" where
  "processImage has_context encodes now lt f =
     (case generateThumbnail has_context encodes f of
        Inl e \<Rightarrow> Inl e
      | Inr t \<Rightarrow>
          Inr \<lparr>original = f, thumbnail = t, originalFilename = name f,
               thumbnailFilename = getThumbnailFilename (name f),
               date = extractImageDate now lt f\<rparr>)"

section \<open>Upload target client (r2.ts)\<close>







text \<open>
  One run of the \<open>XMLHttpRequest\<close> behind \<open>uploadToPresignedUrl\<close>, as the browser
  drives it: the upload progress events in order, then either the \<open>load\<close> event with
  the response status or the \<open>error\<close> event. The byte counts of a progress event are
  unsigned 64-bit attributes.
\<close>

record ProgressEvent =
  lengthComputable :: bool
  loaded :: "64 word"
  total :: "64 word"

datatype xhr_outcome = Load nat | Network_error

record xhr_run =
  progress_events :: "ProgressEvent list"
  outcome :: xhr_outcome

fun show_nat :: "nat \<Rightarrow> string" where
  "show_nat n =
     (if n < 10 then [char_of (48 + n)]
      else show_nat (n div 10) @ [char_of (48 + n mod 10)])"

declare show_nat.simps [simp del]

definition progress_value :: "ProgressEvent \<Rightarrow> js_number" where
  "progress_value event =
     js_mul (js_div (js_of_nat (unat (loaded event))) (js_of_nat (unat (total event)))) (Fin 100)"

text \<open>The promise's settlement: \<open>None\<close> resolves, \<open>Some e\<close> rejects with \<open>String(error) = e\<close>.\<close>

definition xhr_settle :: "xhr_outcome \<Rightarrow> string option" where
  "xhr_settle out =
     (case out of
        Load st \<Rightarrow>
          if 200 \<le> st \<and> st < 300 then None
          else Some (''Error: Upload failed with status '' @ show_nat st)
      | Network_error \<Rightarrow> Some ''Error: Upload failed'')"

text \<open>
  \<open>uploadToPresignedUrl\<close>: the optional callback \<open>onProgress\<close> acts on the caller's
  state \<open>'s\<close>; the result is the state after all callbacks and the settlement.
\<close>

definition uploadToPresignedUrl :: "xhr_run \<Rightarrow> (js_number \<Rightarrow> 's \<Rightarrow> 's) option \<Rightarrow> 's
    \<Rightarrow> 's \<times> string option" where
  "uploadToPresignedUrl run onProgress s =
     (fold (\<lambda>event s'.
              case onProgress of
                None \<Rightarrow> s'
              | Some callback \<Rightarrow>
                  if lengthComputable event then callback (progress_value event) s' else s')
        (progress_events run) s,
      xhr_settle (outcome run))"

section \<open>The upload modal's state (UploadModal.tsx)\<close>

datatype status = Pending | Processing | Uploading | Done | Error

text \<open>
  An entry of the \<open>files\<close> array at run time: every property may be missing
  (\<open>None\<close> is \<open>undefined\<close>), because a write through an index past the end of the
  array creates an object holding only the written properties. A slot of the array is
  an object, the value \<open>undefined\<close>, or a hole.
\<close>

record UploadState =
  file' :: "File option"
  processed :: "ProcessedImage option"
  status :: "status option"
  progress :: "js_number option"
  error :: "string option"

datatype slot = Empty_slot | Undefined | Obj UploadState

definition empty_object :: UploadState where
  "empty_object = \<lparr>file' = None, processed = None, status = None, progress = None, error = None\<rparr>"

text \<open>\<open>a[i]\<close> read as a value: \<open>None\<close> (undefined) for a hole and past the end.\<close>

definition element :: "slot list \<Rightarrow> nat \<Rightarrow> UploadState option" where
  "element a i =
     (if i < length a then (case a ! i of Obj u \<Rightarrow> Some u | _ \<Rightarrow> None) else None)"

text \<open>\<open>{...x}\<close>: spreading \<open>undefined\<close> gives the empty object.\<close>

definition spread_object :: "UploadState option \<Rightarrow> UploadState" where
  "spread_object x = (case x of None \<Rightarrow> empty_object | Some u \<Rightarrow> u)"

text \<open>\<open>[...prev]\<close>: the iterator yields \<open>undefined\<close> for a hole.\<close>

definition array_copy :: "slot list \<Rightarrow> slot list" where
  "array_copy prev = map (\<lambda>s. if s = Empty_slot then Undefined else s) prev"

text \<open>\<open>a[i] = v\<close>: past the end the array grows, leaving holes before \<open>i\<close>.\<close>

definition array_set :: "nat \<Rightarrow> UploadState \<Rightarrow> slot list \<Rightarrow> slot list" where
  "array_set i v a =
     (if i < length a then a[i := Obj v]
      else a @ replicate (i - length a) Empty_slot @ [Obj v])"

definition updateFileStatus :: "nat \<Rightarrow> status \<Rightarrow> string option \<Rightarrow> slot list \<Rightarrow> slot list" where
  "updateFileStatus index st err prev =
     (let updated = array_copy prev
      in array_set index
           ((spread_object (element updated index))\<lparr>status := Some st, error := err\<rparr>)
           updated)"

definition updateFileProgress :: "nat \<Rightarrow> js_number \<Rightarrow> slot list \<Rightarrow> slot list" where
  "updateFileProgress index p prev =
     (let updated = array_copy prev
      in array_set index ((spread_object (element updated index))\<lparr>progress := Some p\<rparr>)
           updated)"

text \<open>\<open>prev.filter((_, i) => i !== index)\<close>: \<open>filter\<close> skips holes.\<close>

definition removeFile :: "nat \<Rightarrow> slot list \<Rightarrow> slot list" where
  "removeFile index prev =
     map snd (filter (\<lambda>(i, s). s \<noteq> Empty_slot \<and> i \<noteq> index) (enumerate 0 prev))"

text \<open>
  \<open>handleFileSelect\<close>, the part that runs before the first \<open>await\<close>: the new entries
  are appended, and the task of each new file computes its \<open>actualIndex\<close> from the
  length of the array at that moment and marks the entry as processing. The result is
  the array and, for each task now awaiting \<open>processImage\<close>, the index it captured.
\<close>

definition new_entry :: "File \<Rightarrow> UploadState" where
  "new_entry f = \<lparr>file' = Some f, processed = None, status = Some Pending,
                  progress = Some (Fin 0), error = None\<rparr>"

fun start_tasks :: "nat \<Rightarrow> nat list \<Rightarrow> slot list \<Rightarrow> slot list \<times> nat list" where
  "start_tasks n [] cur = (cur, [])"
| "start_tasks n (index # rest) cur =
     (let actualIndex = length cur - n + index;
          (cur', tasks) = start_tasks n rest (updateFileStatus actualIndex Processing None cur)
      in (cur', actualIndex # tasks))"

definition handleFileSelect :: "File list option \<Rightarrow> slot list \<Rightarrow> slot list \<times> nat list" where
  "handleFileSelect input_files prev =
     (case input_files of
        None \<Rightarrow> (prev, [])
      | Some fs \<Rightarrow>
          (let newFiles = map new_entry fs
           in start_tasks (length newFiles) [0..<length newFiles]
                (array_copy prev @ map Obj newFiles)))"

text \<open>The two continuations of a task, run when \<open>processImage\<close> settles.\<close>

definition derivation_resolved :: "nat \<Rightarrow> ProcessedImage \<Rightarrow> slot list \<Rightarrow> slot list" where
  "derivation_resolved actualIndex p prev =
     (let updated = array_copy prev
      in array_set actualIndex
           ((spread_object (element updated actualIndex))\<lparr>processed := Some p, status := Some Pending\<rparr>)
           updated)"

definition derivation_rejected :: "nat \<Rightarrow> string \<Rightarrow> slot list \<Rightarrow> slot list" where
  "derivation_rejected actualIndex e prev = updateFileStatus actualIndex Error (Some e) prev"

section \<open>The batch upload (UploadModal.tsx, handleUpload)\<close>

text \<open>
  \<open>handleUpload\<close> gives up control at each of its \<open>await\<close>s. This section models the
  run in which no other handler of the modal (a file selection, a removal, a derivation
  callback, a change of the selected collections) runs in between; the next section
  lets such handlers run at every \<open>await\<close> and relates the two. The network is a
  parameter: for the file at each index, what the requests made for it are answered
  with.
\<close>

text \<open>
  What the network answers for one file: the acquisition request (the \<open>fetch\<close> or the
  reading of its JSON body throws, the response is not ok, or it carries the two URLs),
  the two storage writes, and the record creation request.
\<close>

datatype acquire_outcome = Acquire_throws string | Acquire_not_ok | Acquire_urls string string

datatype create_outcome = Create_throws string | Create_response bool

record network =
  acquire :: acquire_outcome
  put_original :: xhr_run
  put_thumbnail :: xhr_run
  create_record :: create_outcome

datatype payload = Original_blob File | Thumbnail_blob thumbnail_blob

text \<open>
  The calls the batch issues and the status changes it makes, in order; the first
  argument is the index of the file in the array.
\<close>

datatype call =
    Set_status nat status
  | Fetch_upload nat string string string
  | Put nat string payload string
  | Fetch_photos nat string string string int "string list"





text \<open>
  The body of the \<open>try\<close> block for file \<open>i\<close> with derived payload \<open>p\<close>: the array
  and the calls so far, and the exception that ends the block, if any.
\<close>

definition upload_try :: "network \<Rightarrow> string \<Rightarrow> string list \<Rightarrow> nat \<Rightarrow> ProcessedImage \<Rightarrow> slot list
    \<Rightarrow> (slot list \<times> call list) \<times> string option" where
  "upload_try net auth cols i p fs =
     (let c1 = [Fetch_upload i auth (originalFilename p) (thumbnailFilename p)] in
      case acquire net of
        Acquire_throws e \<Rightarrow> ((fs, c1), Some e)
      | Acquire_not_ok \<Rightarrow> ((fs, c1), Some ''Error: Failed to get upload URLs'')
      | Acquire_urls imageUrl thumbnailUrl \<Rightarrow>
          (let c2 = c1 @ [Put i imageUrl (Original_blob (original p)) ''image/jpeg''];
               (fs1, r1) = uploadToPresignedUrl (put_original net)
                  (Some (\<lambda>progress'. updateFileProgress i (js_mul progress' (Fin (1 / 2))))) fs
           in case r1 of
                Some e \<Rightarrow> ((fs1, c2), Some e)
              | None \<Rightarrow>
                 (let c3 = c2 @ [Put i thumbnailUrl (Thumbnail_blob (thumbnail p)) ''image/webp''];
                      (fs2, r2) = uploadToPresignedUrl (put_thumbnail net)
                         (Some (\<lambda>progress'. updateFileProgress i
                                  (js_add (Fin 50) (js_mul progress' (Fin (1 / 2)))))) fs1
                  in case r2 of
                       Some e \<Rightarrow> ((fs2, c3), Some e)
                     | None \<Rightarrow>
                        (case date p of
                           Invalid_Date \<Rightarrow> ((fs2, c3), Some ''RangeError: Invalid time value'')
                         | Time_value t \<Rightarrow>
                            (let c4 = c3 @ [Fetch_photos i auth (originalFilename p)
                                              (thumbnailFilename p) t cols]
                             in case create_record net of
                                  Create_throws e \<Rightarrow> ((fs2, c4), Some e)
                                | Create_response ok \<Rightarrow>
                                    if \<not> ok
                                    then ((fs2, c4), Some ''Error: Failed to create photo record'')
                                    else ((updateFileProgress i (Fin 100)
                                             (updateFileStatus i Done None fs2),
                                           c4 @ [Set_status i Done]), None))))))"

text \<open>One iteration of the loop for an eligible file: lines 114 to 177.\<close>

definition upload_file :: "network \<Rightarrow> string \<Rightarrow> string list \<Rightarrow> nat \<Rightarrow> ProcessedImage \<Rightarrow> slot list
    \<Rightarrow> slot list \<times> call list" where
  "upload_file net auth cols i p fs =
     (let ((fs', cs), exn) = upload_try net auth cols i p (updateFileStatus i Uploading None fs)
      in case exn of
           None \<Rightarrow> (fs', Set_status i Uploading # cs)
         | Some e \<Rightarrow>
             (updateFileStatus i Error (Some e) fs',
              Set_status i Uploading # cs @ [Set_status i Error]))"

text \<open>
  The loop runs while \<open>i < files().length\<close>. No step of an iteration changes the
  length of the array, which the termination proof of the loop needs.
\<close>

lemma length_array_copy [simp]: "length (array_copy a) = length a"
  by (simp add: array_copy_def)

lemma length_array_set [simp]: "i < length a \<Longrightarrow> length (array_set i v a) = length a"
  by (simp add: array_set_def)

lemma length_updateFileStatus [simp]:
  "i < length fs \<Longrightarrow> length (updateFileStatus i st e fs) = length fs"
  by (simp add: updateFileStatus_def Let_def)

lemma length_updateFileProgress [simp]:
  "i < length fs \<Longrightarrow> length (updateFileProgress i p fs) = length fs"
  by (simp add: updateFileProgress_def Let_def)

lemma uploadToPresignedUrl_invariant:
  assumes step: "\<And>p s. P s \<Longrightarrow> P (callback p s)" and init: "P s"
  shows "P (fst (uploadToPresignedUrl run (Some callback) s))"
proof -
  have "P (fold (\<lambda>event s'. if lengthComputable event then callback (progress_value event) s' else s') evs s)"
    for evs
    using init by (induction evs arbitrary: s) (auto intro: step)
  then show ?thesis by (simp add: uploadToPresignedUrl_def)
qed

lemma upload_try_invariant:
  assumes st: "\<And>s e x. P x \<Longrightarrow> P (updateFileStatus i s e x)"
    and pr: "\<And>p x. P x \<Longrightarrow> P (updateFileProgress i p x)"
    and init: "P fs"
  shows "P (fst (fst (upload_try net auth cols i p fs)))"
proof -
  let ?cb1 = "\<lambda>progress'. updateFileProgress i (js_mul progress' (Fin (1 / 2)))"
  let ?cb2 = "\<lambda>progress'. updateFileProgress i (js_add (Fin 50) (js_mul progress' (Fin (1 / 2))))"
  let ?fs1 = "fst (uploadToPresignedUrl (put_original net) (Some ?cb1) fs)"
  let ?fs2 = "fst (uploadToPresignedUrl (put_thumbnail net) (Some ?cb2) ?fs1)"
  have p1: "P ?fs1" by (rule uploadToPresignedUrl_invariant) (auto intro: pr init)
  have p2: "P ?fs2" by (rule uploadToPresignedUrl_invariant) (auto intro: pr p1)
  have p3: "P (updateFileProgress i (Fin 100) (updateFileStatus i Done None ?fs2))"
    by (intro pr st p2)
  show ?thesis
    using init p1 p2 p3
    by (simp add: upload_try_def Let_def split_beta
        split: acquire_outcome.split option.split js_date.split create_outcome.split)
qed

lemma upload_file_invariant:
  assumes st: "\<And>s e x. P x \<Longrightarrow> P (updateFileStatus i s e x)"
    and pr: "\<And>p x. P x \<Longrightarrow> P (updateFileProgress i p x)"
    and init: "P fs"
  shows "P (fst (upload_file net auth cols i p fs))"
proof -
  have "P (fst (fst (upload_try net auth cols i p (updateFileStatus i Uploading None fs))))"
    by (rule upload_try_invariant) (auto intro: st pr init)
  then show ?thesis
    by (auto simp: upload_file_def split_beta intro: st split: option.split)
qed

lemma length_upload_file:
  assumes "i < length fs"
  shows "length (fst (upload_file net auth cols i p fs)) = length fs"
proof -
  have "i < length (fst (upload_file net auth cols i p fs))
      \<and> length (fst (upload_file net auth cols i p fs)) = length fs"
    by (rule upload_file_invariant [where P = "\<lambda>x. i < length x \<and> length x = length fs"])
      (use assms in auto)
  then show ?thesis by simp
qed

definition TypeError_undefined :: string where
  "TypeError_undefined = ''TypeError: Cannot read properties of undefined''"

text \<open>
  The loop of lines 110 to 178 from index \<open>i\<close> on: the array and the calls when it
  ends, and the exception that leaves it, if any. Reading \<open>status\<close> of an entry that is
  \<open>undefined\<close> throws outside the \<open>try\<close> block.
\<close>

function upload_loop :: "(nat \<Rightarrow> network) \<Rightarrow> string \<Rightarrow> string list \<Rightarrow> nat \<Rightarrow> slot list
    \<Rightarrow> (slot list \<times> call list) \<times> string option" where
  "upload_loop env auth cols i fs =
     (if i < length fs then
        (case element fs i of
           None \<Rightarrow> ((fs, []), Some TypeError_undefined)
         | Some uploadState \<Rightarrow>
             if status uploadState \<noteq> Some Pending \<or> processed uploadState = None
             then upload_loop env auth cols (Suc i) fs
             else
               (let step = upload_file (env i) auth cols i (the (processed uploadState)) fs;
                    rest = upload_loop env auth cols (Suc i) (fst step)
                in ((fst (fst rest), snd step @ snd (fst rest)), snd rest)))
      else ((fs, []), None))"
  by pat_completeness auto
termination
  by (relation "measure (\<lambda>(env, auth, cols, i, fs). length fs - i)")
    (auto simp: length_upload_file)

declare upload_loop.simps [simp del]

text \<open>
  The three array scans of \<open>handleUpload\<close>. \<open>filter\<close>, \<open>every\<close> and \<open>some\<close> skip
  holes; on an entry that is \<open>undefined\<close> the callback throws (\<open>None\<close>); \<open>every\<close>
  and \<open>some\<close> stop at the first entry that decides them.
\<close>

definition ready :: "UploadState \<Rightarrow> bool" where
  "ready f = (status f = Some Pending \<and> processed f \<noteq> None)"

definition settled :: "UploadState \<Rightarrow> bool" where
  "settled f = (status f = Some Done \<or> status f = Some Error)"

fun filter_ready :: "slot list \<Rightarrow> UploadState list option" where
  "filter_ready [] = Some []"
| "filter_ready (Empty_slot # a) = filter_ready a"
| "filter_ready (Undefined # a) = None"
| "filter_ready (Obj f # a) =
     (case filter_ready a of
        None \<Rightarrow> None
      | Some r \<Rightarrow> Some (if ready f then f # r else r))"

fun every_settled :: "slot list \<Rightarrow> bool option" where
  "every_settled [] = Some True"
| "every_settled (Empty_slot # a) = every_settled a"
| "every_settled (Undefined # a) = None"
| "every_settled (Obj f # a) = (if settled f then every_settled a else Some False)"

fun some_done :: "slot list \<Rightarrow> bool option" where
  "some_done [] = Some False"
| "some_done (Empty_slot # a) = some_done a"
| "some_done (Undefined # a) = None"
| "some_done (Obj f # a) = (if status f = Some Done then Some True else some_done a)"

record modal =
  files :: "slot list"
  selectedCollections :: "string list"
  uploading :: bool

text \<open>
  What one call of \<open>handleUpload\<close> leaves behind: the modal's state, the calls issued
  and status changes made, the alert shown (if any), whether \<open>onUploadComplete\<close> was
  invoked, and the exception that rejected the call (if any).
\<close>

record upload_result =
  state_after :: modal
  calls :: "call list"
  alert :: "string option"
  completed :: bool
  thrown :: "string option"

definition rejected :: "modal \<Rightarrow> string \<Rightarrow> upload_result" where
  "rejected m msg =
     \<lparr>state_after = m, calls = [], alert = Some msg, completed = False, thrown = None\<rparr>"

definition handleUpload :: "(nat \<Rightarrow> network) \<Rightarrow> string option \<Rightarrow> modal \<Rightarrow> upload_result" where
  "handleUpload env authKey m =
     (if length (selectedCollections m) = 0
      then rejected m ''Please select at least one collection''
      else
        (case filter_ready (files m) of
           None \<Rightarrow>
             \<lparr>state_after = m, calls = [], alert = None, completed = False,
              thrown = Some TypeError_undefined\<rparr>
         | Some readyFiles \<Rightarrow>
             if length readyFiles = 0 then rejected m ''No files ready to upload''
             else
               (let auth = (case authKey of None \<Rightarrow> [] | Some k \<Rightarrow> k);
                    run = upload_loop env auth (selectedCollections m) 0 (files m);
                    fs = fst (fst run);
                    cs = snd (fst run)
                in case snd run of
                     Some e \<Rightarrow>
                       \<lparr>state_after = m\<lparr>files := fs, uploading := True\<rparr>, calls = cs,
                        alert = None, completed = False, thrown = Some e\<rparr>
                   | None \<Rightarrow>
                       (let m' = m\<lparr>files := fs, uploading := False\<rparr> in
                        case every_settled fs of
                          None \<Rightarrow>
                            \<lparr>state_after = m', calls = cs, alert = None, completed = False,
                             thrown = Some TypeError_undefined\<rparr>
                        | Some allDone \<Rightarrow>
                            if \<not> allDone
                            then \<lparr>state_after = m', calls = cs, alert = None,
                                  completed = False, thrown = None\<rparr>
                            else
                              (case some_done fs of
                                 None \<Rightarrow>
                                   \<lparr>state_after = m', calls = cs, alert = None,
                                    completed = False, thrown = Some TypeError_undefined\<rparr>
                               | Some someDone \<Rightarrow>
                                   \<lparr>state_after = m', calls = cs, alert = None,
                                    completed = someDone, thrown = None\<rparr>)))))"

section \<open>The batch upload with other handlers running at its awaits\<close>

text \<open>
  While a request of \<open>handleUpload\<close> is pending, the browser runs the other handlers
  of the modal as their events arrive: a file selection (\<open>handleFileSelect\<close>, its part
  before the first \<open>await\<close>), the continuation of a derivation task with the index it
  captured, a click on a collection, and a click on the remove button of a row. The
  upload button is disabled while \<open>uploading()\<close> holds, so no second batch starts.
\<close>

datatype handler =
    Select_files "File list option"
  | Task_resolved nat ProcessedImage
  | Task_rejected nat string
  | Toggle_collection string
  | Click_remove nat

definition toggleCollection :: "string \<Rightarrow> string list \<Rightarrow> string list" where
  "toggleCollection id' prev =
     (if id' \<in> set prev then filter (\<lambda>c. c \<noteq> id') prev else prev @ [id'])"

text \<open>
  The remove button of a row is rendered only while the row's status is \<open>pending\<close> or
  \<open>error\<close> (lines 253 to 265), whatever \<open>uploading()\<close> is; a click calls \<open>removeFile\<close>
  with the row's index.
\<close>

definition click_remove :: "nat \<Rightarrow> slot list \<Rightarrow> slot list" where
  "click_remove index fs =
     (case element fs index of
        None \<Rightarrow> fs
      | Some f \<Rightarrow>
          if status f = Some Pending \<or> status f = Some Error then removeFile index fs else fs)"

definition set_files :: "(slot list \<Rightarrow> slot list) \<Rightarrow> modal \<Rightarrow> modal" where
  "set_files g m = m\<lparr>files := g (files m)\<rparr>"

fun run_handler :: "handler \<Rightarrow> modal \<Rightarrow> modal" where
  "run_handler (Select_files input_files) m = set_files (\<lambda>prev. fst (handleFileSelect input_files prev)) m"
| "run_handler (Task_resolved actualIndex p) m = set_files (derivation_resolved actualIndex p) m"
| "run_handler (Task_rejected actualIndex e) m = set_files (derivation_rejected actualIndex e) m"
| "run_handler (Toggle_collection id') m =
     m\<lparr>selectedCollections := toggleCollection id' (selectedCollections m)\<rparr>"
| "run_handler (Click_remove index) m = set_files (click_remove index) m"

text \<open>
  One storage write as the browser drives it: its progress events, interleaved with
  the other handlers that run before it settles, then the settlement.
\<close>

datatype xhr_step = Progress_event ProgressEvent | Handler_runs handler

record transfer =
  steps :: "xhr_step list"
  settles :: xhr_outcome

text \<open>
  What happens during the iteration of the loop for one index: the answers of the
  network, and the handlers that run while the acquisition request, each storage write
  and the record creation request are pending.
\<close>

record schedule =
  acquire_answer :: acquire_outcome
  during_acquire :: "handler list"
  original_transfer :: transfer
  thumbnail_transfer :: transfer
  create_answer :: create_outcome
  during_create :: "handler list"

definition uploadToPresignedUrl_s :: "transfer \<Rightarrow> (js_number \<Rightarrow> modal \<Rightarrow> modal) \<Rightarrow> modal
    \<Rightarrow> modal \<times> string option" where
  "uploadToPresignedUrl_s t callback m =
     (fold (\<lambda>step m'.
              case step of
                Progress_event event \<Rightarrow>
                  if lengthComputable event then callback (progress_value event) m' else m'
              | Handler_runs h \<Rightarrow> run_handler h m')
        (steps t) m,
      xhr_settle (settles t))"





text \<open>
  A schedule without interference: no handler runs during the iteration. The answers
  of the network in a schedule, and a network as a schedule without interference.
\<close>

fun is_progress_event :: "xhr_step \<Rightarrow> bool" where
  "is_progress_event (Progress_event e) = True"
| "is_progress_event (Handler_runs h) = False"

definition quiet :: "schedule \<Rightarrow> bool" where
  "quiet sc =
     (during_acquire sc = [] \<and> list_all is_progress_event (steps (original_transfer sc))
      \<and> list_all is_progress_event (steps (thumbnail_transfer sc)) \<and> during_create sc = [])"

fun events_of :: "xhr_step list \<Rightarrow> ProgressEvent list" where
  "events_of [] = []"
| "events_of (Progress_event e # ss) = e # events_of ss"
| "events_of (Handler_runs h # ss) = events_of ss"

definition run_of :: "transfer \<Rightarrow> xhr_run" where
  "run_of t = \<lparr>progress_events = events_of (steps t), outcome = settles t\<rparr>"

definition network_of :: "schedule \<Rightarrow> network" where
  "network_of sc =
     \<lparr>acquire = acquire_answer sc, put_original = run_of (original_transfer sc),
      put_thumbnail = run_of (thumbnail_transfer sc), create_record = create_answer sc\<rparr>"

definition undisturbed :: "xhr_run \<Rightarrow> transfer" where
  "undisturbed run = \<lparr>steps = map Progress_event (progress_events run), settles = outcome run\<rparr>"

definition calm :: "network \<Rightarrow> schedule" where
  "calm net =
     \<lparr>acquire_answer = acquire net, during_acquire = [],
      original_transfer = undisturbed (put_original net),
      thumbnail_transfer = undisturbed (put_thumbnail net),
      create_answer = create_record net, during_create = []\<rparr>"

section \<open>Observing a storage write\<close>

text \<open>
  The values one transfer passes to \<open>onProgress\<close>, in order: the log kept by a callback
  that appends its argument.
\<close>

definition recorded_progress :: "xhr_run \<Rightarrow> js_number list" where
  "recorded_progress run = fst (uploadToPresignedUrl run (Some (\<lambda>p seen. seen @ [p])) [])"

text \<open>The specification's range for a progress value: a fraction between 0 and 1.\<close>

definition unit_fraction :: "js_number \<Rightarrow> bool" where
  "unit_fraction x = (case x of Fin q \<Rightarrow> 0 \<le> q \<and> q \<le> 1 | _ \<Rightarrow> False)"

section \<open>Arrays without holes, and the calls of one file\<close>




section \<open>Example inputs\<close>

text \<open>
  A small batch used to evaluate the model: PNG and JPEG files as the operator selects
  them, their derived payloads, and network behaviours for one file.
\<close>

definition example_file :: "string \<Rightarrow> string \<Rightarrow> File" where
  "example_file n ty =
     \<lparr>name = n, mime_type = ty, lastModified = 1700000000000, exif = Tags [],
      decoded = Some (1600, 1200)\<rparr>"

definition example_processed :: "File \<Rightarrow> ProcessedImage" where
  "example_processed f =
     \<lparr>original = f,
      thumbnail = \<lparr>blob_width = 800, blob_height = 600, blob_type = ''image/webp'',
                   blob_quality = THUMBNAIL_QUALITY\<rparr>,
      originalFilename = name f,
      thumbnailFilename = getThumbnailFilename (name f),
      date = Time_value (lastModified f)\<rparr>"

definition entry :: "File \<Rightarrow> ProcessedImage option \<Rightarrow> status \<Rightarrow> string option \<Rightarrow> UploadState" where
  "entry f p s e =
     \<lparr>file' = Some f, processed = p, status = Some s, progress = Some (Fin 0), error = e\<rparr>"

definition ready_entry :: "File \<Rightarrow> UploadState" where
  "ready_entry f = entry f (Some (example_processed f)) Pending None"

definition photo_png :: File where
  "photo_png = example_file ''photo.png'' ''image/png''"

definition beach_jpg :: File where
  "beach_jpg = example_file ''beach.jpg'' ''image/jpeg''"

definition full_run :: "nat \<Rightarrow> xhr_run" where
  "full_run st =
     \<lparr>progress_events = [\<lparr>lengthComputable = True, loaded = 10, total = 10\<rparr>],
      outcome = Load st\<rparr>"



definition good_network :: network where
  "good_network =
     \<lparr>acquire = Acquire_urls ''https://r2/original'' ''https://r2/preview'',
      put_original = full_run 200, put_thumbnail = full_run 200,
      create_record = Create_response True\<rparr>"





definition broken_jpg :: File where
  "broken_jpg =
     \<lparr>name = ''broken.jpg'', mime_type = ''image/jpeg'', lastModified = 1700000000000,
      exif = Load_throws, decoded = None\<rparr>"

text \<open>
  A session of the modal: the operator selects \<open>photo.png\<close>, whose derivation
  succeeds; then selects \<open>beach.jpg\<close> and \<open>broken.jpg\<close> together, whose tasks capture
  the indices 1 and 2; the derivation of \<open>broken.jpg\<close> fails; the operator removes
  \<open>photo.png\<close>. \<open>session_before\<close> is the array at that point, \<open>session_after\<close> the
  array once the derivation of \<open>beach.jpg\<close> has succeeded.
\<close>

definition session_selected :: "slot list \<times> nat list" where
  "session_selected =
     handleFileSelect (Some [beach_jpg, broken_jpg])
       (derivation_resolved 0 (example_processed photo_png)
          (fst (handleFileSelect (Some [photo_png]) [])))"

definition session_before :: "slot list" where
  "session_before =
     removeFile 0 (derivation_rejected 2 ''Error: Failed to load image'' (fst session_selected))"

definition session_after :: "slot list" where
  "session_after = derivation_resolved 1 (example_processed beach_jpg) session_before"

section \<open>Properties of preview naming\<close>

lemma list_all_not_dot [simp]:
  "list_all (\<lambda>x. x \<noteq> c) b \<longleftrightarrow> c \<notin> set b"
  by (induction b) auto

lemma ball_not_dot [simp]:
  "(\<forall>x\<in>set b. x \<noteq> c) \<longleftrightarrow> c \<notin> set b"
  by blast

lemma replace_extension_no_dot:
  "CHR ''.'' \<notin> set s \<Longrightarrow> replace_extension s = s"
  by (induction s) auto

lemma replace_extension_append_dot:
  "replace_extension (a @ CHR ''.'' # b) =
     (if CHR ''.'' \<in> set b then a @ CHR ''.'' # replace_extension b
      else if b = [] then a @ [CHR ''.''] else a)"
proof (induction a)
  case Nil
  show ?case
    by (auto simp: replace_extension_no_dot)
next
  case (Cons x a)
  show ?case using Cons.IH
    by auto
qed

lemma strip_final_extension_last_dot:
  "CHR ''.'' \<notin> set b \<Longrightarrow> strip_final_extension (a @ CHR ''.'' # b) = a"
proof -
  assume nb: "CHR ''.'' \<notin> set b"
  have "dropWhile (\<lambda>x. x \<noteq> CHR ''.'') (rev b @ CHR ''.'' # rev a) = CHR ''.'' # rev a"
    using nb by (simp add: dropWhile_append3)
  then show ?thesis
    by (simp add: strip_final_extension_def)
qed

lemma replace_extension_last_dot:
  "CHR ''.'' \<notin> set b \<Longrightarrow> b \<noteq> [] \<Longrightarrow> replace_extension (a @ CHR ''.'' # b) = a"
  by (simp add: replace_extension_append_dot)

lemma replace_extension_trailing_dot:
  "replace_extension (a @ [CHR ''.'']) = a @ [CHR ''.'']"
  by (simp add: replace_extension_append_dot)

lemma split_at_last_dot:
  "CHR ''.'' \<in> set s \<Longrightarrow> \<exists>a b. s = a @ CHR ''.'' # b \<and> CHR ''.'' \<notin> set b"
  by (metis split_list_last)

text \<open>
  Claim C9, as amended: the preview filename is the original filename with its final
  extension removed (the last dot and everything after it) whenever at least one
  character follows the last dot, and the whole original filename when it has no dot or
  ends in a dot; \<open>-thumb.webp\<close> is appended in each case. \<open>photo.jpg\<close> maps to
  \<open>photo-thumb.webp\<close>.
\<close>

theorem getThumbnailFilename_spec:
  "getThumbnailFilename s =
     (if CHR ''.'' \<in> set s \<and> last s \<noteq> CHR ''.'' then strip_final_extension s else s)
       @ ''-thumb.webp''
   \<and> getThumbnailFilename ''photo.jpg'' = ''photo-thumb.webp''"
proof -
  have ex: "getThumbnailFilename ''photo.jpg'' = ''photo-thumb.webp''"
    by (simp add: getThumbnailFilename_def)
  have main: "replace_extension s =
     (if CHR ''.'' \<in> set s \<and> last s \<noteq> CHR ''.'' then strip_final_extension s else s)"
  proof (cases "CHR ''.'' \<in> set s")
    case False
    then show ?thesis by (simp add: replace_extension_no_dot)
  next
    case True
    then obtain a b where s: "s = a @ CHR ''.'' # b" and nb: "CHR ''.'' \<notin> set b"
      using split_at_last_dot by blast
    show ?thesis
    proof (cases "b = []")
      case True
      then show ?thesis using s by (simp add: replace_extension_trailing_dot)
    next
      case False
      then have "last s \<noteq> CHR ''.''" using s nb by (metis last_ConsR last_appendR last_in_set list.distinct(1))
      then show ?thesis
        using s nb False True
        by (simp add: replace_extension_last_dot strip_final_extension_last_dot del: last_appendR last.simps)
    qed
  qed
  show ?thesis using ex main by (simp add: getThumbnailFilename_def)
qed

theorem getThumbnailFilename_spec_witness:
  "CHR ''.'' \<in> set ''HC_08466.jpg'' \<and> last ''HC_08466.jpg'' \<noteq> CHR ''.''
   \<and> getThumbnailFilename ''HC_08466.jpg'' = ''HC_08466-thumb.webp''"
  using getThumbnailFilename_spec [of "''HC_08466.jpg''"]
  by (simp add: strip_final_extension_def)

text \<open>
  Claim C9 as stated fails for a filename that ends in a dot: the pattern needs a
  character after the dot, so nothing is removed.
\<close>

theorem getThumbnailFilename_trailing_dot_counterexample:
  "getThumbnailFilename ''photo.'' = ''photo.-thumb.webp''
   \<and> strip_final_extension ''photo.'' @ ''-thumb.webp'' = ''photo-thumb.webp''"
  by (simp add: getThumbnailFilename_def strip_final_extension_def)

section \<open>Properties of rounding to a double\<close>

declare of_nat_unat [simp del]

lemma ilog2_bounds: "0 < n \<Longrightarrow> 2 ^ ilog2 n \<le> n \<and> n < 2 ^ Suc (ilog2 n)"
proof (induction n rule: ilog2.induct)
  case (1 n)
  show ?case
  proof (cases "n < 2")
    case True
    then have "n = 1" using "1.prems" by simp
    then show ?thesis by (simp add: ilog2.simps)
  next
    case False
    then have pos: "0 < n div 2" by simp
    have ih: "2 ^ ilog2 (n div 2) \<le> n div 2 \<and> n div 2 < 2 ^ Suc (ilog2 (n div 2))"
      using "1.IH" [OF False pos] .
    have eq: "ilog2 n = Suc (ilog2 (n div 2))" using False by (subst ilog2.simps) simp
    have "2 * 2 ^ ilog2 (n div 2) \<le> 2 * (n div 2)" using ih by simp
    also have "\<dots> \<le> n" by simp
    finally have lo: "2 ^ ilog2 n \<le> n" by (simp add: eq)
    have "n < 2 * (n div 2) + 2" by presburger
    also have "\<dots> \<le> 2 * 2 ^ Suc (ilog2 (n div 2))" using ih by simp
    finally have hi: "n < 2 ^ Suc (ilog2 n)" by (simp add: eq)
    show ?thesis using lo hi by simp
  qed
qed

lemma two_powi_pos [simp]: "0 < (2 :: rat) powi e"
  by (simp add: zero_less_power_int)

lemma two_powi_mono: "a \<le> b \<Longrightarrow> (2 :: rat) powi a \<le> 2 powi b"
  by (rule power_int_increasing) simp_all

lemma two_powi_less_imp: "(2 :: rat) powi a < 2 powi b \<Longrightarrow> a < b"
proof (rule ccontr)
  assume lt: "(2 :: rat) powi a < 2 powi b" and "\<not> a < b"
  then have "b \<le> a" by simp
  then have "(2 :: rat) powi b \<le> 2 powi a" by (rule two_powi_mono)
  then show False using lt by simp
qed

lemma two_powi_Suc: "(2 :: rat) powi (e + 1) = 2 * 2 powi e"
  by (simp add: power_int_add)

lemma floor_log2_bounds:
  assumes "0 < x"
  shows "2 powi floor_log2 x \<le> x" and "x < 2 powi (floor_log2 x + 1)"
proof -
  obtain p q where pq: "quotient_of x = (p, q)" by (cases "quotient_of x")
  have q: "0 < q" using pq by (rule quotient_of_denom_pos)
  have x: "x = of_int p / of_int q" using pq by (rule quotient_of_div)
  have p: "0 < p" using assms q x by (simp add: zero_less_divide_iff)
  define a where "a = ilog2 p"
  define b where "b = ilog2 q"
  define d where "d = int a - int b"
  have "2 ^ a \<le> p \<and> p < 2 ^ Suc a" unfolding a_def using p by (rule ilog2_bounds)
  then have "(of_int (2 ^ a) :: rat) \<le> of_int p" and "(of_int p :: rat) < of_int (2 ^ Suc a)"
    by (simp_all only: of_int_le_iff of_int_less_iff)
  then have pa: "(2 :: rat) ^ a \<le> of_int p" and pa': "of_int p < (2 :: rat) ^ Suc a"
    by simp_all
  have "2 ^ b \<le> q \<and> q < 2 ^ Suc b" unfolding b_def using q by (rule ilog2_bounds)
  then have "(of_int (2 ^ b) :: rat) \<le> of_int q" and "(of_int q :: rat) < of_int (2 ^ Suc b)"
    by (simp_all only: of_int_le_iff of_int_less_iff)
  then have qb: "(2 :: rat) ^ b \<le> of_int q" and qb': "of_int q < (2 :: rat) ^ Suc b"
    by simp_all
  have qpos: "(0 :: rat) < of_int q" using q by simp
  have d1: "(2 :: rat) powi (d + 1) = 2 ^ Suc a / 2 ^ b"
    unfolding d_def by (simp add: power_int_diff power_int_add)
  have d0: "(2 :: rat) powi (d - 1) = 2 ^ a / 2 ^ Suc b"
    unfolding d_def by (simp add: power_int_diff)
  have "x < 2 ^ Suc a / of_int q" unfolding x using pa' qpos by (simp add: divide_strict_right_mono)
  also have "\<dots> \<le> 2 ^ Suc a / 2 ^ b" using qb by (simp add: frac_le)
  finally have up: "x < 2 powi (d + 1)" using d1 by simp
  have "(2 :: rat) ^ a / 2 ^ Suc b < 2 ^ a / of_int q"
    using qb' qpos by (intro divide_strict_left_mono) simp_all
  also have "\<dots> \<le> x" unfolding x using pa qpos by (simp add: divide_right_mono)
  finally have low: "2 powi (d - 1) < x" using d0 by simp
  have fl: "floor_log2 x = (if 2 powi d \<le> x then d else d - 1)"
    by (simp add: floor_log2_def pq a_def b_def d_def)
  show "2 powi floor_log2 x \<le> x" using fl low by (simp split: if_splits)
  show "x < 2 powi (floor_log2 x + 1)" using fl up by (simp split: if_splits)
qed

lemma floor_log2_unique:
  assumes "2 powi e \<le> x" and "x < 2 powi (e + 1)"
  shows "floor_log2 x = e"
proof -
  have pos: "0 < x" using assms(1) two_powi_pos [of e] by linarith
  note b = floor_log2_bounds [OF pos]
  have "(2 :: rat) powi floor_log2 x < 2 powi (e + 1)" using b(1) assms(2) by linarith
  then have "floor_log2 x < e + 1" by (rule two_powi_less_imp)
  moreover have "(2 :: rat) powi e < 2 powi (floor_log2 x + 1)" using b(2) assms(1) by linarith
  then have "e < floor_log2 x + 1" by (rule two_powi_less_imp)
  ultimately show ?thesis by simp
qed

lemma floor_log2_mono:
  assumes "0 < x" and "x \<le> y"
  shows "floor_log2 x \<le> floor_log2 y"
proof -
  have "(2 :: rat) powi floor_log2 x < 2 powi (floor_log2 y + 1)"
    using floor_log2_bounds(1) [OF assms(1)] floor_log2_bounds(2) [of y] assms by linarith
  then have "floor_log2 x < floor_log2 y + 1" by (rule two_powi_less_imp)
  then show ?thesis by simp
qed

lemma rne_cases: "rne t = \<lfloor>t\<rfloor> \<or> rne t = \<lfloor>t\<rfloor> + 1"
  by (simp add: rne_def Let_def)

lemma rne_error: "\<bar>of_int (rne t) - t\<bar> \<le> 1 / 2"
proof -
  have "of_int \<lfloor>t\<rfloor> \<le> t" and "t < of_int \<lfloor>t\<rfloor> + 1" by linarith+
  then show ?thesis by (auto simp: rne_def Let_def)
qed

lemma rne_of_int [simp]: "rne (of_int k) = k"
  by (simp add: rne_def)

lemma rne_mono:
  assumes "t \<le> t'"
  shows "rne t \<le> rne t'"
proof (cases "\<lfloor>t\<rfloor> < \<lfloor>t'\<rfloor>")
  case True
  have "rne t \<le> \<lfloor>t\<rfloor> + 1" using rne_cases [of t] by linarith
  moreover have "\<lfloor>t'\<rfloor> \<le> rne t'" using rne_cases [of t'] by linarith
  ultimately show ?thesis using True by linarith
next
  case False
  have "\<lfloor>t\<rfloor> \<le> \<lfloor>t'\<rfloor>" using assms by (rule floor_mono)
  then have eq: "\<lfloor>t'\<rfloor> = \<lfloor>t\<rfloor>" using False by simp
  have "t - of_int \<lfloor>t\<rfloor> \<le> t' - of_int \<lfloor>t\<rfloor>" using assms by simp
  then show ?thesis by (auto simp: rne_def Let_def eq)
qed

lemma rne_ge: "of_int a \<le> t \<Longrightarrow> a \<le> rne t"
  using rne_mono [of "of_int a" t] by simp

lemma rne_le: "t \<le> of_int b \<Longrightarrow> rne t \<le> b"
  using rne_mono [of t "of_int b"] by simp

lemma ulp_exponent_mono: "0 < x \<Longrightarrow> x \<le> y \<Longrightarrow> ulp_exponent x \<le> ulp_exponent y"
  using floor_log2_mono [of x y] by (simp add: ulp_exponent_def)

lemma fl_pos_nonneg: "0 \<le> x \<Longrightarrow> 0 \<le> fl_pos x"
proof -
  assume "0 \<le> x"
  then have "(of_int 0 :: rat) \<le> x / 2 powi ulp_exponent x" by simp
  then have "0 \<le> rne (x / 2 powi ulp_exponent x)" by (rule rne_ge)
  then show ?thesis by (simp add: fl_pos_def)
qed

lemma fl_pos_upper:
  assumes "0 < x"
  shows "fl_pos x \<le> 2 powi (ulp_exponent x + 53)"
proof -
  let ?u = "ulp_exponent x"
  have "x < 2 powi (floor_log2 x + 1)" using assms by (rule floor_log2_bounds)
  also have "\<dots> \<le> 2 powi (?u + 53)" by (rule two_powi_mono) (simp add: ulp_exponent_def)
  finally have "x / 2 powi ?u \<le> 2 powi (?u + 53) / 2 powi ?u" by (simp add: divide_right_mono)
  also have "\<dots> = of_int (2 ^ 53)" by (simp add: power_int_add)
  finally have "rne (x / 2 powi ?u) \<le> 2 ^ 53" by (rule rne_le)
  then have "(of_int (rne (x / 2 powi ?u)) :: rat) \<le> of_int (2 ^ 53)" by (simp only: of_int_le_iff)
  then have "fl_pos x \<le> of_int (2 ^ 53) * 2 powi ?u"
    unfolding fl_pos_def by (intro mult_right_mono) simp_all
  also have "\<dots> = 2 powi (?u + 53)" by (simp add: power_int_add)
  finally show ?thesis .
qed

lemma fl_pos_lower:
  assumes "- 1022 \<le> floor_log2 x" and "0 < x"
  shows "2 powi floor_log2 x \<le> fl_pos x"
proof -
  let ?u = "ulp_exponent x"
  have u: "?u = floor_log2 x - 52" using assms(1) by (simp add: ulp_exponent_def)
  have "2 powi floor_log2 x \<le> x" using assms(2) by (rule floor_log2_bounds)
  then have "2 powi floor_log2 x / 2 powi ?u \<le> x / 2 powi ?u" by (simp add: divide_right_mono)
  moreover have "(2 :: rat) powi floor_log2 x / 2 powi ?u = of_int (2 ^ 52)"
    by (simp add: u power_int_diff)
  ultimately have "2 ^ 52 \<le> rne (x / 2 powi ?u)" by (intro rne_ge) simp
  then have "(of_int (2 ^ 52) :: rat) \<le> of_int (rne (x / 2 powi ?u))" by (simp only: of_int_le_iff)
  then have "of_int (2 ^ 52) * 2 powi ?u \<le> fl_pos x"
    unfolding fl_pos_def by (intro mult_right_mono) simp_all
  moreover have "(of_int (2 ^ 52) :: rat) * 2 powi ?u = 2 powi floor_log2 x"
    by (simp add: u power_int_diff)
  ultimately show ?thesis by simp
qed

lemma fl_pos_mono:
  assumes "0 < x" and "x \<le> y"
  shows "fl_pos x \<le> fl_pos y"
proof (cases "ulp_exponent x = ulp_exponent y")
  case True
  have "x / 2 powi ulp_exponent y \<le> y / 2 powi ulp_exponent y"
    using assms(2) by (simp add: divide_right_mono)
  then have "rne (x / 2 powi ulp_exponent y) \<le> rne (y / 2 powi ulp_exponent y)" by (rule rne_mono)
  then have "(of_int (rne (x / 2 powi ulp_exponent y)) :: rat) \<le> of_int (rne (y / 2 powi ulp_exponent y))"
    by (simp only: of_int_le_iff)
  then show ?thesis unfolding fl_pos_def True by (intro mult_right_mono) simp_all
next
  case False
  have ypos: "0 < y" using assms by simp
  have "ulp_exponent x \<le> ulp_exponent y" using assms by (rule ulp_exponent_mono)
  then have lt: "ulp_exponent x < ulp_exponent y" using False by simp
  then have big: "- 1022 < floor_log2 y" and uy: "ulp_exponent y = floor_log2 y - 52"
    by (auto simp: ulp_exponent_def max_def split: if_splits)
  have "fl_pos x \<le> 2 powi (ulp_exponent x + 53)" using assms(1) by (rule fl_pos_upper)
  also have "\<dots> \<le> 2 powi floor_log2 y" using lt uy by (intro two_powi_mono) simp
  also have "\<dots> \<le> fl_pos y" using big ypos by (intro fl_pos_lower) simp_all
  finally show ?thesis .
qed

lemma fl_pos_error:
  assumes "2 powi (- 1022) \<le> x"
  shows "\<bar>fl_pos x - x\<bar> \<le> x / 2 ^ 53"
proof -
  have pos: "0 < x" using assms two_powi_pos [of "- 1022"] by linarith
  let ?e = "floor_log2 x"
  have "(2 :: rat) powi (- 1022) < 2 powi (?e + 1)"
    using assms floor_log2_bounds(2) [OF pos] by linarith
  then have "- 1022 < ?e + 1" by (rule two_powi_less_imp)
  then have u: "ulp_exponent x = ?e - 52" by (simp add: ulp_exponent_def)
  let ?U = "(2 :: rat) powi (?e - 52)"
  have "\<bar>of_int (rne (x / ?U)) - x / ?U\<bar> \<le> 1 / 2" by (rule rne_error)
  then have "\<bar>of_int (rne (x / ?U)) - x / ?U\<bar> * ?U \<le> 1 / 2 * ?U"
    by (intro mult_right_mono) simp_all
  moreover have "\<bar>of_int (rne (x / ?U)) - x / ?U\<bar> * ?U = \<bar>fl_pos x - x\<bar>"
  proof -
    have "\<bar>of_int (rne (x / ?U)) - x / ?U\<bar> * ?U = \<bar>(of_int (rne (x / ?U)) - x / ?U) * ?U\<bar>"
      by (simp add: abs_mult)
    also have "(of_int (rne (x / ?U)) - x / ?U) * ?U = fl_pos x - x"
      by (simp add: fl_pos_def u left_diff_distrib)
    finally show ?thesis .
  qed
  moreover have "1 / 2 * ?U = 2 powi ?e / 2 ^ 53"
  proof -
    have "(2 :: rat) powi (?e - 52) = 2 powi ?e / 2 powi 52" by (simp add: power_int_diff)
    then show ?thesis by simp
  qed
  moreover have "2 powi ?e / 2 ^ 53 \<le> x / 2 ^ 53"
    using floor_log2_bounds(1) [OF pos] by (simp add: divide_right_mono)
  ultimately show ?thesis by linarith
qed

lemma fl_pos_exact:
  assumes "0 < k" and "k < 2 ^ 53" and "- 1074 \<le> j"
  shows "fl_pos (of_int k * 2 powi j) = of_int k * 2 powi j"
proof -
  let ?x = "of_int k * (2 :: rat) powi j"
  have pos: "0 < ?x" using assms(1) by simp
  have "?x < of_int (2 ^ 53) * 2 powi j"
    using assms(2) by (intro mult_strict_right_mono) (simp_all only: of_int_less_iff two_powi_pos)
  also have "\<dots> = 2 powi (53 + j)" by (simp add: power_int_add)
  finally have "(2 :: rat) powi floor_log2 ?x < 2 powi (53 + j)"
    using floor_log2_bounds(1) [OF pos] by linarith
  then have "floor_log2 ?x < 53 + j" by (rule two_powi_less_imp)
  then have le: "ulp_exponent ?x \<le> j" using assms(3) by (simp add: ulp_exponent_def)
  define U where "U = (2 :: rat) powi ulp_exponent ?x"
  define n where "n = nat (j - ulp_exponent ?x)"
  have U: "0 < U" by (simp add: U_def)
  have j: "j = ulp_exponent ?x + int n" using le by (simp add: n_def)
  have pj: "(2 :: rat) powi j = U * 2 ^ n"
    unfolding U_def by (subst j) (simp add: power_int_add)
  have x: "?x = of_int (k * 2 ^ n) * U" by (simp add: pj)
  have "of_int (k * 2 ^ n) * U / U = (of_int (k * 2 ^ n) :: rat)" using U by simp
  then have "?x / U = of_int (k * 2 ^ n)" by (simp only: x)
  then have "rne (?x / U) = k * 2 ^ n" by (simp only: rne_of_int)
  then have "fl_pos ?x = of_int (k * 2 ^ n) * U"
    by (simp only: fl_pos_def U_def)
  then show ?thesis by (simp only: x)
qed

lemma fl_zero [simp]: "fl 0 = 0"
  by (simp add: fl_def)

lemma fl_nonneg: "0 \<le> x \<Longrightarrow> 0 \<le> fl x"
  by (simp add: fl_def fl_pos_nonneg)

lemma fl_mono: "0 \<le> x \<Longrightarrow> x \<le> y \<Longrightarrow> fl x \<le> fl y"
  by (cases "x = 0") (auto simp: fl_def fl_pos_nonneg fl_pos_mono)

lemma fl_error: "2 powi (- 1022) \<le> x \<Longrightarrow> \<bar>fl x - x\<bar> \<le> x / 2 ^ 53"
proof -
  assume a: "2 powi (- 1022) \<le> x"
  then have "0 < x" using two_powi_pos [of "- 1022"] by linarith
  then show ?thesis using fl_pos_error [OF a] by (simp add: fl_def)
qed

lemma fl_of_nat: "n < 2 ^ 53 \<Longrightarrow> fl (of_nat n) = of_nat n"
proof (cases "n = 0")
  case True
  then show ?thesis by simp
next
  case False
  assume "n < 2 ^ 53"
  then have "int n < 2 ^ 53" by (metis of_nat_less_iff of_nat_numeral of_nat_power)
  then have "fl_pos (of_int (int n) * 2 powi 0) = of_int (int n) * 2 powi 0"
    using False by (intro fl_pos_exact) simp_all
  then show ?thesis using False by (simp add: fl_def)
qed

lemma fl_numeral [simp]: "numeral n < (2 :: nat) ^ 53 \<Longrightarrow> fl (numeral n) = numeral n"
  using fl_of_nat [of "numeral n"] by simp

lemma fl_one [simp]: "fl 1 = 1"
  using fl_of_nat [of 1] by simp

lemma fl_half [simp]: "fl (1 / 2) = 1 / 2"
proof -
  have "fl_pos (of_int 1 * 2 powi (- 1)) = of_int 1 * 2 powi (- 1)"
    by (rule fl_pos_exact) simp_all
  then show ?thesis by (simp add: fl_def power_int_minus)
qed

lemma fl_two_powi: "- 1074 \<le> j \<Longrightarrow> fl (2 powi j) = 2 powi j"
  using fl_pos_exact [of 1 j] by (simp add: fl_def)

lemma js_of_rat_Fin:
  assumes "0 \<le> x" and "x \<le> 2 ^ 1023"
  shows "js_of_rat x = Fin (fl x)"
proof (cases "fl x = 0")
  case True
  then show ?thesis by (simp add: js_of_rat_def)
next
  case False
  have "fl (2 powi 1023) = 2 powi 1023" by (rule fl_two_powi) simp
  then have "fl (2 ^ 1023) = 2 ^ 1023" by simp
  then have le: "fl x \<le> 2 ^ 1023" using fl_mono [OF assms] by simp
  have pos: "0 < fl x" using fl_nonneg [OF assms(1)] False by simp
  have "2 powi floor_log2 (fl x) \<le> fl x" using pos by (rule floor_log2_bounds)
  then have "(2 :: rat) powi floor_log2 (fl x) < 2 powi 1024" using le by simp
  then have "floor_log2 (fl x) < 1024" by (rule two_powi_less_imp)
  then show ?thesis using pos by (simp add: js_of_rat_def)
qed

lemma js_of_nat_Fin: "n < 2 ^ 53 \<Longrightarrow> js_of_nat n = Fin (of_nat n)"
proof -
  assume n: "n < 2 ^ 53"
  then have "rat_of_nat n \<le> rat_of_nat (2 ^ 53)" by (simp only: of_nat_le_iff)
  also have "\<dots> \<le> 2 ^ 1023" by (simp add: power_increasing)
  finally have "js_of_rat (of_nat n) = Fin (fl (of_nat n))" by (intro js_of_rat_Fin) simp_all
  then show ?thesis using n by (simp add: js_of_nat_def fl_of_nat)
qed

lemma fl_normal:
  assumes "2 powi e \<le> x" and "x < 2 powi (e + 1)" and "- 1022 \<le> e"
  shows "fl x = of_int (rne (x / 2 powi (e - 52))) * 2 powi (e - 52)"
proof -
  have pos: "0 < x" using assms(1) two_powi_pos [of e] by linarith
  have "floor_log2 x = e" using assms(1,2) by (rule floor_log2_unique)
  then have "ulp_exponent x = e - 52" using assms(3) by (simp add: ulp_exponent_def)
  then show ?thesis using pos by (simp add: fl_def fl_pos_def)
qed

lemma floor_rat_numeral_div [simp]:
  "\<lfloor>(numeral a :: rat) / numeral b\<rfloor> = numeral a div numeral b"
  using floor_divide_of_int_eq [of "numeral a" "numeral b", where ?'a = rat] by simp

lemma js_of_rat_exact: "fl x = x \<Longrightarrow> 0 \<le> x \<Longrightarrow> x \<le> 2 ^ 1023 \<Longrightarrow> js_of_rat x = Fin x"
  using js_of_rat_Fin [of x] by simp

lemma js_of_nat_numeral [simp]:
  "numeral n < (2 :: nat) ^ 53 \<Longrightarrow> js_of_nat (numeral n) = Fin (numeral n)"
  using js_of_nat_Fin [of "numeral n"] by simp

lemma js_of_nat_zero [simp]: "js_of_nat 0 = Fin 0"
  using js_of_nat_Fin [of 0] by simp

text \<open>
  The rounding at work: \<open>0.1 + 0.2\<close> is \<open>0.30000000000000004\<close>, above the double
  \<open>0.3\<close>; and one byte loaded of three is reported as \<open>33.33333333333333\<close> percent, the
  double just below one hundred thirds.
\<close>

lemma double_rounding_examples:
  "js_add (js_of_rat (1 / 10)) (js_of_rat (2 / 10)) = Fin (1351079888211149 / 4503599627370496)
   \<and> js_of_rat (3 / 10) = Fin (5404319552844595 / 18014398509481984)
   \<and> progress_value \<lparr>lengthComputable = True, loaded = 1, total = 3\<rparr>
       = Fin (2345624805922133 / 70368744177664)
   \<and> (2345624805922133 :: rat) / 70368744177664 < 100 / 3"
  by code_simp

section \<open>Properties of the preview size\<close>

lemma js_of_nat_word32: "js_of_nat (unat (w :: 32 word)) = Fin (of_nat (unat w))"
proof -
  have "unat w < 2 ^ 32" using unsigned_less [of w, where ?'a = nat] by simp
  also have "(2 :: nat) ^ 32 < 2 ^ 53" by simp
  finally show ?thesis by (rule js_of_nat_Fin)
qed

lemma fl_relative:
  assumes "2 powi (- 1022) \<le> x"
  obtains d where "fl x = x * (1 + d)" and "\<bar>d\<bar> \<le> 1 / 2 ^ 53"
proof -
  have pos: "0 < x" using assms two_powi_pos [of "- 1022"] by linarith
  define d where "d = (fl x - x) / x"
  have "fl x = x * (1 + d)" using pos by (simp add: d_def field_simps)
  moreover have "\<bar>d\<bar> \<le> 1 / 2 ^ 53"
  proof -
    have "\<bar>d\<bar> = \<bar>fl x - x\<bar> / x" using pos by (simp add: d_def)
    also have "\<dots> \<le> x / 2 ^ 53 / x"
      using fl_error [OF assms] pos by (intro divide_right_mono) simp_all
    also have "\<dots> = 1 / 2 ^ 53" using pos by simp
    finally show ?thesis .
  qed
  ultimately show ?thesis by (rule that)
qed

text \<open>
  One side of the scaled preview. The exact product \<open>a * 800 / m\<close> is a multiple of
  \<open>1 / m\<close>; the double that is rounded differs from it by less than \<open>1 / (4 * m)\<close>, so
  the integer chosen by \<open>Math.round\<close> is within one half of the exact product.
\<close>

lemma scaled_side:
  fixes a m :: nat
  assumes am: "a \<le> m" and big: "800 < m" and m32: "m < 2 ^ 32"
  defines "k \<equiv> \<lfloor>fl (rat_of_nat a * fl (800 / rat_of_nat m)) + 1 / 2\<rfloor>"
  shows "0 \<le> k" and "k \<le> 800" and "\<bar>of_int k - rat_of_nat a * (800 / rat_of_nat m)\<bar> \<le> 1 / 2"
proof -
  define M where "M = rat_of_nat m"
  define A where "A = rat_of_nat a"
  define s where "s = fl (800 / M)"
  define y where "y = fl (A * s)"
  define x where "x = A * (800 / M)"
  have k: "k = \<lfloor>y + 1 / 2\<rfloor>" by (simp add: k_def y_def s_def A_def M_def)
  have M: "800 < M" "M < 2 ^ 32" "0 < M"
    using big m32 unfolding M_def
    by (metis of_nat_less_iff of_nat_numeral, metis of_nat_less_iff of_nat_numeral of_nat_power, simp)
  have A: "0 \<le> A" "A \<le> M" using am by (simp_all add: A_def M_def)
  have x0: "0 \<le> x" using A M by (simp add: x_def)
  have "A * 800 \<le> 800 * M" using A by simp
  then have x800: "x \<le> 800" unfolding x_def using M(3) by (simp add: pos_divide_le_eq)
  have q1: "800 / M \<le> 1" using M by simp
  have "(800 :: rat) / 2 ^ 32 < 800 / M" using M by (intro divide_strict_left_mono) simp_all
  then have q2: "1 / 2 ^ 23 \<le> 800 / M" by simp
  have "(2 :: rat) powi (- 1022) \<le> 2 powi (- 23)" by (rule two_powi_mono) simp
  then have "2 powi (- 1022) \<le> 800 / M" using q2 by (simp add: power_int_minus field_simps)
  then obtain d1 where d1: "s = 800 / M * (1 + d1)" "\<bar>d1\<bar> \<le> 1 / 2 ^ 53"
    unfolding s_def by (rule fl_relative)
  have s0: "0 \<le> s" unfolding s_def using M by (intro fl_nonneg) simp
  have y0: "0 \<le> y" unfolding y_def using A s0 by (intro fl_nonneg) simp
  have err: "\<bar>y - x\<bar> \<le> 1 / 2 ^ 34"
  proof (cases "a = 0")
    case True
    then show ?thesis by (simp add: y_def x_def A_def)
  next
    case False
    then have A1: "1 \<le> A" by (simp add: A_def)
    have e1: "1 - 1 / 2 ^ 53 \<le> 1 + d1" using d1(2) by (simp add: abs_le_iff)
    have e2: "(0 :: rat) \<le> 1 - 1 / 2 ^ 53" by simp
    have e3: "0 \<le> 800 / M" using M(3) by simp
    have "1 / 2 ^ 23 * (1 - 1 / 2 ^ 53) \<le> 800 / M * (1 + d1)"
      using q2 e1 e3 e2 by (rule mult_mono)
    moreover have "(1 :: rat) / 2 ^ 24 \<le> 1 / 2 ^ 23 * (1 - 1 / 2 ^ 53)" by simp
    ultimately have "1 / 2 ^ 24 \<le> s" unfolding d1(1) by (rule order_trans [rotated])
    then have "1 / 2 ^ 24 \<le> A * s" using A1 s0 mult_mono [of 1 A "1 / 2 ^ 24" s] by simp
    moreover have "(2 :: rat) powi (- 1022) \<le> 2 powi (- 24)" by (rule two_powi_mono) simp
    ultimately have "2 powi (- 1022) \<le> A * s" by (simp add: power_int_minus field_simps)
    then obtain d2 where d2: "y = A * s * (1 + d2)" "\<bar>d2\<bar> \<le> 1 / 2 ^ 53"
      unfolding y_def by (rule fl_relative)
    have "y - x = x * (d1 + d2 + d1 * d2)"
      unfolding d2(1) d1(1) x_def by (simp add: algebra_simps add_divide_distrib)
    then have "\<bar>y - x\<bar> = x * \<bar>d1 + d2 + d1 * d2\<bar>" using x0 by (simp add: abs_mult)
    also have "\<bar>d1 + d2 + d1 * d2\<bar> \<le> \<bar>d1\<bar> + \<bar>d2\<bar> + \<bar>d1\<bar> * \<bar>d2\<bar>"
      by (metis abs_mult abs_triangle_ineq add.commute add_left_mono order_trans)
    then have "x * \<bar>d1 + d2 + d1 * d2\<bar> \<le> x * (\<bar>d1\<bar> + \<bar>d2\<bar> + \<bar>d1\<bar> * \<bar>d2\<bar>)"
      using x0 by (rule mult_left_mono)
    also have "\<bar>d1\<bar> * \<bar>d2\<bar> \<le> 1 / 2 ^ 53 * 1"
      using d1(2) d2(2) by (intro mult_mono) simp_all
    then have "\<bar>d1\<bar> + \<bar>d2\<bar> + \<bar>d1\<bar> * \<bar>d2\<bar> \<le> 3 / 2 ^ 53" using d1(2) d2(2) by simp
    then have "x * (\<bar>d1\<bar> + \<bar>d2\<bar> + \<bar>d1\<bar> * \<bar>d2\<bar>) \<le> 800 * (3 / 2 ^ 53)"
      using x0 x800 by (intro mult_mono) simp_all
    also have "(800 :: rat) * (3 / 2 ^ 53) \<le> 1 / 2 ^ 34" by simp
    finally show ?thesis .
  qed
  have lo: "of_int k \<le> y + 1 / 2" and hi: "y + 1 / 2 < of_int k + 1" unfolding k by linarith+
  show "0 \<le> k" unfolding k using y0 by simp
  define N where "N = 2 * int m * k - 1600 * int a"
  have N: "of_int N = 2 * M * (of_int k - x)"
    using M(3) by (simp add: N_def M_def A_def x_def field_simps)
  have two_m: "2 * M * (1 / 2 ^ 34) < 1" using M(2) by simp
  have ey: "y - x \<le> 1 / 2 ^ 34" "x - y \<le> 1 / 2 ^ 34" using err by linarith+
  have "of_int k - x \<le> 1 / 2 + 1 / 2 ^ 34" using lo ey by linarith
  then have "2 * M * (of_int k - x) \<le> 2 * M * (1 / 2 + 1 / 2 ^ 34)"
    using M(3) by (intro mult_left_mono) simp_all
  then have "of_int N < M + 1" using two_m unfolding N by (simp add: algebra_simps)
  then have "of_int N < rat_of_int (int m + 1)" by (simp add: M_def)
  then have "N < int m + 1" by (simp only: of_int_less_iff)
  then have "N \<le> int m" by simp
  then have "rat_of_int N \<le> of_int (int m)" by (simp only: of_int_le_iff)
  then have up: "2 * M * (of_int k - x) \<le> M" unfolding N by (simp add: M_def)
  have "- (1 / 2) - 1 / 2 ^ 34 < of_int k - x" using hi ey by linarith
  then have "2 * M * (- (1 / 2) - 1 / 2 ^ 34) < 2 * M * (of_int k - x)"
    using M(3) by (intro mult_strict_left_mono) simp_all
  then have "- M - 1 < of_int N" using two_m unfolding N by (simp add: algebra_simps)
  then have "rat_of_int (- int m - 1) < of_int N" by (simp add: M_def)
  then have "- int m - 1 < N" by (simp only: of_int_less_iff)
  then have "- int m \<le> N" by simp
  then have "rat_of_int (- int m) \<le> of_int N" by (simp only: of_int_le_iff)
  then have dn: "- M \<le> 2 * M * (of_int k - x)" unfolding N by (simp add: M_def)
  have M2: "0 < 2 * M" using M(3) by simp
  have "2 * M * (of_int k - x) \<le> 2 * M * (1 / 2)" using up by simp
  then have "of_int k - x \<le> 1 / 2" by (simp only: mult_le_cancel_left_pos [OF M2])
  moreover have "2 * M * (- (1 / 2)) \<le> 2 * M * (of_int k - x)" using dn by simp
  then have "- (1 / 2) \<le> of_int k - x" by (simp only: mult_le_cancel_left_pos [OF M2])
  ultimately have half: "\<bar>of_int k - x\<bar> \<le> 1 / 2" by linarith
  then show "\<bar>of_int k - rat_of_nat a * (800 / rat_of_nat m)\<bar> \<le> 1 / 2"
    by (simp add: x_def A_def M_def)
  have "rat_of_int k < 801" using half x800 by linarith
  then have "rat_of_int k < of_int 801" by simp
  then have "k < 801" by (simp only: of_int_less_iff)
  then show "k \<le> 800" by simp
qed

lemma js_div_800:
  assumes "0 < n"
  shows "js_div (Fin 800) (Fin (rat_of_nat n)) = Fin (fl (800 / rat_of_nat n))"
proof -
  have "1 \<le> rat_of_nat n" using assms by simp
  then have "800 / rat_of_nat n \<le> 800 / 1" by (intro divide_left_mono) simp_all
  also have "(800 :: rat) / 1 \<le> 2 ^ 1023" by simp
  finally have "js_of_rat (800 / rat_of_nat n) = Fin (fl (800 / rat_of_nat n))"
    by (intro js_of_rat_Fin) simp_all
  then show ?thesis using assms by simp
qed

lemma js_div_800_zero: "js_div (Fin 800) (Fin (rat_of_nat 0)) = PosInfinity"
  by simp

lemma thumbnail_scale:
  fixes w h :: nat
  assumes "800 < w \<or> 800 < h"
  shows "js_min (js_div (Fin 800) (Fin (rat_of_nat w))) (js_div (Fin 800) (Fin (rat_of_nat h)))
           = Fin (fl (800 / rat_of_nat (max w h)))"
proof (cases "w = 0 \<or> h = 0")
  case True
  then show ?thesis
  proof
    assume w: "w = 0"
    then have "0 < h" using assms by simp
    then show ?thesis unfolding w js_div_800_zero by (simp add: js_div_800 del: js_div.simps)
  next
    assume h: "h = 0"
    then have "0 < w" using assms by simp
    then show ?thesis unfolding h js_div_800_zero by (simp add: js_div_800 del: js_div.simps)
  qed
next
  case False
  then have pos: "0 < w" "0 < h" by auto
  have "min (fl (800 / rat_of_nat w)) (fl (800 / rat_of_nat h)) = fl (800 / rat_of_nat (max w h))"
  proof (cases "w \<le> h")
    case True
    then have "800 / rat_of_nat h \<le> 800 / rat_of_nat w"
      using pos by (simp add: frac_le)
    then have "fl (800 / rat_of_nat h) \<le> fl (800 / rat_of_nat w)" by (intro fl_mono) simp_all
    then show ?thesis using True by (simp add: max_def min_def)
  next
    case False
    then have "800 / rat_of_nat w \<le> 800 / rat_of_nat h"
      using pos by (simp add: frac_le)
    then have "fl (800 / rat_of_nat w) \<le> fl (800 / rat_of_nat h)" by (intro fl_mono) simp_all
    then show ?thesis using False by (simp add: max_def min_def)
  qed
  then show ?thesis using pos by (simp add: js_div_800 del: js_div.simps)
qed

lemma js_mul_scale:
  fixes a m :: nat
  assumes "a < 2 ^ 32" and "800 < m"
  shows "js_mul (Fin (rat_of_nat a)) (Fin (fl (800 / rat_of_nat m)))
           = Fin (fl (rat_of_nat a * fl (800 / rat_of_nat m)))"
proof -
  have "800 / rat_of_nat m \<le> 1" using assms(2) by simp
  then have "fl (800 / rat_of_nat m) \<le> fl 1" by (intro fl_mono) simp_all
  then have s1: "fl (800 / rat_of_nat m) \<le> 1" by simp
  have s0: "0 \<le> fl (800 / rat_of_nat m)" by (intro fl_nonneg) simp
  have "a \<le> 2 ^ 32" using assms(1) by simp
  then have "rat_of_nat a \<le> rat_of_nat (2 ^ 32)" by (simp only: of_nat_le_iff)
  then have a: "rat_of_nat a \<le> 2 ^ 32" by simp
  have "rat_of_nat a * fl (800 / rat_of_nat m) \<le> 2 ^ 32 * 1"
    using a s1 s0 by (intro mult_mono) simp_all
  also have "(2 :: rat) ^ 32 * 1 \<le> 2 ^ 1023" by simp
  finally have "js_of_rat (rat_of_nat a * fl (800 / rat_of_nat m))
      = Fin (fl (rat_of_nat a * fl (800 / rat_of_nat m)))"
    using s0 by (intro js_of_rat_Fin) simp_all
  then show ?thesis by simp
qed

lemma rounded_side:
  fixes a m :: nat
  assumes "a \<le> m" and "800 < m" and "m < 2 ^ 32"
  shows "\<exists>a'. js_round (js_mul (Fin (rat_of_nat a)) (Fin (fl (800 / rat_of_nat m)))) = Fin (rat_of_nat a')
           \<and> a' \<le> 800 \<and> \<bar>rat_of_nat a' - rat_of_nat a * (800 / rat_of_nat m)\<bar> \<le> 1 / 2"
proof -
  define k where "k = \<lfloor>fl (rat_of_nat a * fl (800 / rat_of_nat m)) + 1 / 2\<rfloor>"
  note k = scaled_side [OF assms, folded k_def]
  have a32: "a < 2 ^ 32" using assms(1,3) by simp
  have eq: "rat_of_nat (nat k) = of_int k" using k(1) by simp
  have "js_round (js_mul (Fin (rat_of_nat a)) (Fin (fl (800 / rat_of_nat m)))) = Fin (of_int k)"
    by (simp add: js_mul_scale [OF a32 assms(2)] k_def del: js_mul.simps)
  then have "js_round (js_mul (Fin (rat_of_nat a)) (Fin (fl (800 / rat_of_nat m))))
      = Fin (rat_of_nat (nat k))" by (simp only: eq)
  moreover have "nat k \<le> 800" using k(2) by simp
  moreover have "\<bar>rat_of_nat (nat k) - rat_of_nat a * (800 / rat_of_nat m)\<bar> \<le> 1 / 2"
    using k(3) by (simp only: eq)
  ultimately show ?thesis by blast
qed

lemma thumbnail_dimensions_scaled:
  assumes big: "800 < unat w \<or> 800 < unat h"
  shows "\<exists>w' h'. thumbnail_dimensions w h = (Fin (rat_of_nat w'), Fin (rat_of_nat h'))
           \<and> w' \<le> 800 \<and> h' \<le> 800
           \<and> (\<exists>s. 0 < s \<and> s \<le> 1 \<and> \<bar>rat_of_nat w' - rat_of_nat (unat w) * s\<bar> \<le> 1 / 2
                  \<and> \<bar>rat_of_nat h' - rat_of_nat (unat h) * s\<bar> \<le> 1 / 2)"
proof -
  define m where "m = max (unat w) (unat h)"
  define s where "s = 800 / rat_of_nat m"
  have w32: "unat w < 2 ^ 32" using unsigned_less [of w, where ?'a = nat] by simp
  have h32: "unat h < 2 ^ 32" using unsigned_less [of h, where ?'a = nat] by simp
  have m: "800 < m" "unat w \<le> m" "unat h \<le> m" "m < 2 ^ 32"
    using big w32 h32 by (auto simp: m_def)
  have s: "0 < s" "s \<le> 1" using m(1) by (simp_all add: s_def)
  obtain w' where w': "js_round (js_mul (Fin (rat_of_nat (unat w))) (Fin (fl s))) = Fin (rat_of_nat w')"
      "w' \<le> 800" "\<bar>rat_of_nat w' - rat_of_nat (unat w) * s\<bar> \<le> 1 / 2"
    unfolding s_def using rounded_side [OF m(2) m(1) m(4)] by blast
  obtain h' where h': "js_round (js_mul (Fin (rat_of_nat (unat h))) (Fin (fl s))) = Fin (rat_of_nat h')"
      "h' \<le> 800" "\<bar>rat_of_nat h' - rat_of_nat (unat h) * s\<bar> \<le> 1 / 2"
    unfolding s_def using rounded_side [OF m(3) m(1) m(4)] by blast
  have "thumbnail_dimensions w h = (Fin (rat_of_nat w'), Fin (rat_of_nat h'))"
    using big w'(1) h'(1) thumbnail_scale [OF big]
    by (simp add: thumbnail_dimensions_def js_of_nat_word32 s_def m_def Let_def
        THUMBNAIL_MAX_SIZE_def del: js_div.simps js_mul.simps)
  then show ?thesis using w' h' s by blast
qed

lemma thumbnail_dimensions_small:
  "unat w \<le> 800 \<Longrightarrow> unat h \<le> 800 \<Longrightarrow>
   thumbnail_dimensions w h = (Fin (rat_of_nat (unat w)), Fin (rat_of_nat (unat h)))"
  by (simp add: thumbnail_dimensions_def THUMBNAIL_MAX_SIZE_def js_of_nat_word32)

text \<open>
  An image of 145 by 1856 pixels: the exact width of the preview would be 62.5, the
  product computed in doubles is just below it, and the preview is 62 pixels wide.
\<close>

lemma fl_25_58: "fl (25 / 58) = 3882413471871117 / 9007199254740992"
  by (subst fl_normal [where e = "- 2"]) (simp_all add: power_int_minus rne_def Let_def)

lemma fl_145: "fl (562949953421311965 / 9007199254740992) = 8796093022207999 / 140737488355328"
  by (subst fl_normal [where e = 5]) (simp_all add: power_int_minus rne_def Let_def)

lemma fl_1856: "fl (112589990684262393 / 140737488355328) = 800"
  by (subst fl_normal [where e = 9]) (simp_all add: power_int_minus rne_def Let_def)

lemma thumbnail_dimensions_145_1856:
  "thumbnail_dimensions 145 1856 = (Fin 62, Fin 800)
   \<and> (145 :: rat) * (800 / 1856) = 62 + 1 / 2"
proof -
  have scale: "js_min (js_div (Fin 800) (Fin (rat_of_nat 145))) (js_div (Fin 800) (Fin (rat_of_nat 1856)))
      = Fin (fl (800 / rat_of_nat (max 145 1856)))"
    by (rule thumbnail_scale) simp
  then have scale': "js_min (js_div (Fin 800) (Fin 145)) (js_div (Fin 800) (Fin 1856))
      = Fin (3882413471871117 / 9007199254740992)"
    by (simp add: fl_25_58 del: js_div.simps)
  have "js_mul (Fin (rat_of_nat 145)) (Fin (fl (800 / rat_of_nat 1856)))
      = Fin (fl (rat_of_nat 145 * fl (800 / rat_of_nat 1856)))"
    by (rule js_mul_scale) simp_all
  then have m1: "js_mul (Fin 145) (Fin (3882413471871117 / 9007199254740992))
      = Fin (8796093022207999 / 140737488355328)"
    by (simp add: fl_25_58 fl_145 del: js_mul.simps)
  have "js_mul (Fin (rat_of_nat 1856)) (Fin (fl (800 / rat_of_nat 1856)))
      = Fin (fl (rat_of_nat 1856 * fl (800 / rat_of_nat 1856)))"
    by (rule js_mul_scale) simp_all
  then have m2: "js_mul (Fin 1856) (Fin (3882413471871117 / 9007199254740992)) = Fin 800"
    by (simp add: fl_25_58 fl_1856 del: js_mul.simps)
  have "thumbnail_dimensions 145 1856 = (Fin 62, Fin 800)"
    by (simp add: thumbnail_dimensions_def THUMBNAIL_MAX_SIZE_def scale' m1 m2
        del: js_div.simps js_mul.simps)
  then show ?thesis by simp
qed

lemma canvas_size_of_nat: "canvas_size (Fin (rat_of_nat n)) = n"
  by simp

lemma generateThumbnail_Inr:
  assumes "decoded f = Some (w, h)" and "generateThumbnail has_context encodes f = Inr b"
  shows "blob_width b = canvas_size (fst (thumbnail_dimensions w h))"
    and "blob_height b = canvas_size (snd (thumbnail_dimensions w h))"
  using assms
  by (auto simp: generateThumbnail_def Let_def split_beta split: if_splits)

text \<open>
  Claim C7: for a decodable image of width \<open>w\<close> and height \<open>h\<close>, every preview that
  \<open>generateThumbnail\<close> resolves with has width and height at most 800; when \<open>w\<close> and
  \<open>h\<close> are both at most 800 they are kept; and there is one scale factor \<open>s\<close> in
  \<open>(0, 1]\<close> such that each output dimension differs from the input dimension times
  \<open>s\<close> by at most one half, that is, the aspect ratio is kept up to the rounding of
  each dimension to the nearest integer. The scale and the products are computed in
  doubles, as the code does; the bound of one half is on the distance to the exact
  product. With a canvas context and an encoder that delivers, the call does resolve.
\<close>

theorem generateThumbnail_dimensions:
  assumes "decoded f = Some (w, h)"
  shows "(has_context \<and> (\<forall>cw ch. encodes cw ch)
            \<longrightarrow> (\<exists>b. generateThumbnail has_context encodes f = Inr b))
       \<and> (\<forall>b. generateThumbnail has_context encodes f = Inr b \<longrightarrow>
             blob_width b \<le> 800 \<and> blob_height b \<le> 800
             \<and> (unat w \<le> 800 \<and> unat h \<le> 800 \<longrightarrow> blob_width b = unat w \<and> blob_height b = unat h)
             \<and> (\<exists>s. 0 < s \<and> s \<le> 1
                    \<and> \<bar>rat_of_nat (blob_width b) - rat_of_nat (unat w) * s\<bar> \<le> 1 / 2
                    \<and> \<bar>rat_of_nat (blob_height b) - rat_of_nat (unat h) * s\<bar> \<le> 1 / 2))"
proof (intro conjI allI impI)
  assume "has_context \<and> (\<forall>cw ch. encodes cw ch)"
  then show "\<exists>b. generateThumbnail has_context encodes f = Inr b"
    using assms by (simp add: generateThumbnail_def Let_def split_beta)
next
  fix b
  assume res: "generateThumbnail has_context encodes f = Inr b"
  note size = generateThumbnail_Inr [OF assms res]
  obtain w' h' where d: "thumbnail_dimensions w h = (Fin (rat_of_nat w'), Fin (rat_of_nat h'))"
      and le: "w' \<le> 800" "h' \<le> 800"
      and keep: "unat w \<le> 800 \<and> unat h \<le> 800 \<longrightarrow> w' = unat w \<and> h' = unat h"
      and ratio: "\<exists>s. 0 < s \<and> s \<le> 1 \<and> \<bar>rat_of_nat w' - rat_of_nat (unat w) * s\<bar> \<le> 1 / 2
                  \<and> \<bar>rat_of_nat h' - rat_of_nat (unat h) * s\<bar> \<le> 1 / 2"
  proof (cases "800 < unat w \<or> 800 < unat h")
    case True
    then obtain w' h' where A: "thumbnail_dimensions w h = (Fin (rat_of_nat w'), Fin (rat_of_nat h'))"
        and B: "w' \<le> 800" and C: "h' \<le> 800"
        and D: "\<exists>s. 0 < s \<and> s \<le> 1 \<and> \<bar>rat_of_nat w' - rat_of_nat (unat w) * s\<bar> \<le> 1 / 2
                  \<and> \<bar>rat_of_nat h' - rat_of_nat (unat h) * s\<bar> \<le> 1 / 2"
      using thumbnail_dimensions_scaled by blast
    have E: "unat w \<le> 800 \<and> unat h \<le> 800 \<longrightarrow> w' = unat w \<and> h' = unat h" using True by auto
    show ?thesis by (rule that [OF A B C E D])
  next
    case False
    then have small: "unat w \<le> 800" "unat h \<le> 800" by auto
    have D: "\<exists>s::rat. 0 < s \<and> s \<le> 1 \<and> \<bar>rat_of_nat (unat w) - rat_of_nat (unat w) * s\<bar> \<le> 1 / 2
        \<and> \<bar>rat_of_nat (unat h) - rat_of_nat (unat h) * s\<bar> \<le> 1 / 2"
      by (rule exI [of _ 1]) simp
    have E: "unat w \<le> 800 \<and> unat h \<le> 800 \<longrightarrow> unat w = unat w \<and> unat h = unat h" by simp
    show ?thesis
      by (rule that [OF thumbnail_dimensions_small [OF small] small E D])
  qed
  have bw: "blob_width b = w'" and bh: "blob_height b = h'"
    using size d by simp_all
  show "blob_width b \<le> 800" using le bw by simp
  show "blob_height b \<le> 800" using le bh by simp
  show "\<exists>s. 0 < s \<and> s \<le> 1
                    \<and> \<bar>rat_of_nat (blob_width b) - rat_of_nat (unat w) * s\<bar> \<le> 1 / 2
                    \<and> \<bar>rat_of_nat (blob_height b) - rat_of_nat (unat h) * s\<bar> \<le> 1 / 2"
    using ratio bw bh by simp
  assume "unat w \<le> 800 \<and> unat h \<le> 800"
  then show "blob_width b = unat w" and "blob_height b = unat h" using keep bw bh by simp_all
qed

lemma thumbnail_dimensions_1600_1200:
  "thumbnail_dimensions 1600 1200 = (Fin 800, Fin 600)"
proof -
  have scale: "js_min (js_div (Fin 800) (Fin (rat_of_nat 1600))) (js_div (Fin 800) (Fin (rat_of_nat 1200)))
      = Fin (fl (800 / rat_of_nat (max 1600 1200)))"
    by (rule thumbnail_scale) simp
  then have scale': "js_min (js_div (Fin 800) (Fin 1600)) (js_div (Fin 800) (Fin 1200)) = Fin (1 / 2)"
    by (simp del: js_div.simps)
  have "js_mul (Fin (rat_of_nat 1600)) (Fin (fl (800 / rat_of_nat 1600)))
      = Fin (fl (rat_of_nat 1600 * fl (800 / rat_of_nat 1600)))"
    by (rule js_mul_scale) simp_all
  then have m1: "js_mul (Fin 1600) (Fin (1 / 2)) = Fin 800"
    by (simp del: js_mul.simps)
  have "js_mul (Fin (rat_of_nat 1200)) (Fin (fl (800 / rat_of_nat 1600)))
      = Fin (fl (rat_of_nat 1200 * fl (800 / rat_of_nat 1600)))"
    by (rule js_mul_scale) simp_all
  then have m2: "js_mul (Fin 1200) (Fin (1 / 2)) = Fin 600"
    by (simp del: js_mul.simps)
  show ?thesis
    by (simp add: thumbnail_dimensions_def THUMBNAIL_MAX_SIZE_def scale' m1 m2
        del: js_div.simps js_mul.simps)
qed

theorem generateThumbnail_dimensions_witness:
  "generateThumbnail True (\<lambda>cw ch. True) (example_file ''HC_08466.jpg'' ''image/jpeg'')
    = Inr \<lparr>blob_width = 800, blob_height = 600, blob_type = ''image/webp'',
           blob_quality = THUMBNAIL_QUALITY\<rparr>
   \<and> generateThumbnail True (\<lambda>cw ch. True)
      \<lparr>name = ''icon.png'', mime_type = ''image/png'', lastModified = 1700000000000,
       exif = Tags [], decoded = Some (640, 480)\<rparr>
    = Inr \<lparr>blob_width = 640, blob_height = 480, blob_type = ''image/webp'',
           blob_quality = THUMBNAIL_QUALITY\<rparr>"
proof -
  let ?f = "\<lparr>name = ''icon.png'', mime_type = ''image/png'', lastModified = 1700000000000,
       exif = Tags [], decoded = Some (640 :: 32 word, 480 :: 32 word)\<rparr>"
  have d: "decoded ?f = Some (640, 480)" by simp
  have small: "generateThumbnail True (\<lambda>cw ch. True) ?f
      = Inr \<lparr>blob_width = 640, blob_height = 480, blob_type = ''image/webp'',
           blob_quality = THUMBNAIL_QUALITY\<rparr>"
    by (simp add: generateThumbnail_def thumbnail_dimensions_small)
  have big: "generateThumbnail True (\<lambda>cw ch. True) (example_file ''HC_08466.jpg'' ''image/jpeg'')
    = Inr \<lparr>blob_width = 800, blob_height = 600, blob_type = ''image/webp'',
           blob_quality = THUMBNAIL_QUALITY\<rparr>"
    by (simp add: generateThumbnail_def thumbnail_dimensions_1600_1200 example_file_def)
  have "blob_width \<lparr>blob_width = 640, blob_height = 480, blob_type = ''image/webp'',
           blob_quality = THUMBNAIL_QUALITY\<rparr> \<le> 800"
    using generateThumbnail_dimensions [OF d, of True "\<lambda>cw ch. True"] small by blast
  then show ?thesis using big small by simp
qed

text \<open>The derived payload of an example file is what \<open>processImage\<close> resolves with.\<close>

lemma processImage_example:
  "processImage True (\<lambda>cw ch. True) now lt (example_file n ty)
     = Inr (example_processed (example_file n ty))"
  by (simp add: processImage_def generateThumbnail_def thumbnail_dimensions_1600_1200
      example_file_def example_processed_def
      extractImageDate_def exif_date_def dateString_of_def js_or_def truthy_def time_clip_def)

section \<open>Properties of the capture date\<close>

lemma dateString_of_absent:
  assumes "\<not> truthy (map_of tags ''DateTimeOriginal'')"
    and "\<not> truthy (map_of tags ''DateTime'')"
    and "\<not> truthy (map_of tags ''DateTimeDigitized'')"
  shows "\<not> truthy (dateString_of tags)"
  using assms by (simp add: dateString_of_def js_or_def)

text \<open>
  Without a metadata date (no non-empty description under any of the three tags, or a
  failing metadata reader) the result is the last-modified time, and the current time
  when the last-modified time is 0.
\<close>

lemma extractImageDate_without_metadata_date:
  assumes "exif f = Load_throws \<or> (\<exists>tags. exif f = Tags tags \<and> \<not> truthy (dateString_of tags))"
  shows "extractImageDate now lt f =
           (if lastModified f \<noteq> 0 then time_clip (lastModified f) else Time_value now)"
proof -
  have "exif_date lt f = None"
    using assms by (auto simp: exif_date_def truthy_def split: option.splits)
  then show ?thesis by (simp add: extractImageDate_def)
qed

lemma parseInt_unknown: "parseInt (Some ''unknown'') = None"
  by code_simp

lemma parseInt_undefined: "parseInt None = None"
  by code_simp

lemma parseInt_empty: "parseInt (Some []) = None"
  by code_simp

text \<open>
  Claim C8 at a date string that does not parse: \<open>parseInt\<close> yields NaN, \<open>new Date\<close>
  does not throw, and the function returns the invalid date instead of the
  last-modified time. The two inputs are a file whose \<open>DateTimeOriginal\<close> is the text
  \<open>unknown\<close>, and one whose \<open>DateTimeOriginal\<close> is the blank EXIF date (digits
  replaced by spaces).
\<close>

theorem extractImageDate_unparsable_date:
  "extractImageDate now lt
      \<lparr>name = ''IMG_0001.jpg'', mime_type = ''image/jpeg'', lastModified = 1700000000000,
       exif = Tags [(''DateTimeOriginal'', ''unknown'')], decoded = Some (4000, 3000)\<rparr>
     = Invalid_Date
   \<and> extractImageDate now lt
      \<lparr>name = ''IMG_0002.jpg'', mime_type = ''image/jpeg'', lastModified = 1700000000000,
       exif = Tags [(''DateTimeOriginal'', ''    :  :     :  :  '')], decoded = Some (4000, 3000)\<rparr>
     = Invalid_Date"
  by (simp add: extractImageDate_def exif_date_def dateString_of_def js_or_def truthy_def
      parse_exif_date_def nth_undefined_def parseInt_unknown parseInt_undefined parseInt_empty)

section \<open>Properties of the storage write\<close>

lemma fold_record_progress:
  "fold (\<lambda>event s'. if lengthComputable event then s' @ [progress_value event] else s') evs seen
     = seen @ map progress_value (filter lengthComputable evs)"
  by (induction evs arbitrary: seen) auto

lemma recorded_progress_eq:
  "recorded_progress run = map progress_value (filter lengthComputable (progress_events run))"
  by (simp add: recorded_progress_def uploadToPresignedUrl_def fold_record_progress)

lemma js_of_nat_word64: "js_of_nat (unat (w :: 64 word)) = Fin (fl (rat_of_nat (unat w)))"
proof -
  have "unat w < 2 ^ 64" using unsigned_less [of w, where ?'a = nat] by simp
  then have "unat w \<le> 2 ^ 64" by simp
  then have "rat_of_nat (unat w) \<le> rat_of_nat (2 ^ 64)" by (simp only: of_nat_le_iff)
  also have "\<dots> \<le> 2 ^ 1023" by (simp add: power_increasing)
  finally show ?thesis unfolding js_of_nat_def by (intro js_of_rat_Fin) simp_all
qed

text \<open>
  The percentage computed for \<open>l\<close> bytes loaded of \<open>t\<close>: both counts are read as
  doubles, the quotient is rounded, and so is its product with 100.
\<close>

lemma percent_value:
  fixes l t :: "64 word"
  assumes "l \<le> t" and "0 < t"
  defines "q \<equiv> fl (fl (fl (rat_of_nat (unat l)) / fl (rat_of_nat (unat t))) * 100)"
  shows "js_mul (js_div (js_of_nat (unat l)) (js_of_nat (unat t))) (Fin 100) = Fin q"
    and "0 \<le> q" and "q \<le> 100"
proof -
  define L where "L = fl (rat_of_nat (unat l))"
  define T where "T = fl (rat_of_nat (unat t))"
  have "unat l \<le> unat t" using assms(1) by (simp add: word_le_nat_alt)
  then have LT: "L \<le> T" unfolding L_def T_def by (intro fl_mono) simp_all
  have "0 < unat t" using assms(2) by (simp add: word_less_nat_alt)
  then have "1 \<le> rat_of_nat (unat t)" by simp
  then have "fl 1 \<le> T" unfolding T_def by (intro fl_mono) simp_all
  then have T: "0 < T" by simp
  have L: "0 \<le> L" unfolding L_def by (intro fl_nonneg) simp
  have r0: "0 \<le> L / T" using L T by simp
  have r1: "L / T \<le> 1" using LT T by simp
  have "js_of_rat (L / T) = Fin (fl (L / T))" using r0 r1 by (intro js_of_rat_Fin) simp_all
  then have d: "js_div (js_of_nat (unat l)) (js_of_nat (unat t)) = Fin (fl (L / T))"
    using T by (simp add: js_of_nat_word64 L_def T_def)
  have f0: "0 \<le> fl (L / T)" using r0 by (rule fl_nonneg)
  have "fl (L / T) \<le> fl 1" using r0 r1 by (rule fl_mono)
  then have f1: "fl (L / T) \<le> 1" by simp
  have p0: "0 \<le> fl (L / T) * 100" using f0 by simp
  have p1: "fl (L / T) * 100 \<le> 100" using f1 by simp
  have "js_of_rat (fl (L / T) * 100) = Fin (fl (fl (L / T) * 100))"
    using p0 p1 by (intro js_of_rat_Fin) simp_all
  then show "js_mul (js_div (js_of_nat (unat l)) (js_of_nat (unat t))) (Fin 100) = Fin q"
    by (simp add: d q_def L_def T_def)
  show "0 \<le> q" unfolding q_def L_def [symmetric] T_def [symmetric] using p0 by (rule fl_nonneg)
  have "fl (fl (L / T) * 100) \<le> fl 100" using p0 p1 by (rule fl_mono)
  then show "q \<le> 100" by (simp add: q_def L_def T_def)
qed

lemma percent_mono:
  fixes l l' t :: "64 word"
  assumes "l \<le> l'" and "0 < t"
  shows "fl (fl (fl (rat_of_nat (unat l)) / fl (rat_of_nat (unat t))) * 100)
       \<le> fl (fl (fl (rat_of_nat (unat l')) / fl (rat_of_nat (unat t))) * 100)"
proof -
  define T where "T = fl (rat_of_nat (unat t))"
  have "0 < unat t" using assms(2) by (simp add: word_less_nat_alt)
  then have "1 \<le> rat_of_nat (unat t)" by simp
  then have "fl 1 \<le> T" unfolding T_def by (intro fl_mono) simp_all
  then have T: "0 < T" by simp
  have "unat l \<le> unat l'" using assms(1) by (simp add: word_le_nat_alt)
  then have LL: "fl (rat_of_nat (unat l)) \<le> fl (rat_of_nat (unat l'))" by (intro fl_mono) simp_all
  have L: "0 \<le> fl (rat_of_nat (unat l))" by (intro fl_nonneg) simp
  have "fl (rat_of_nat (unat l)) / T \<le> fl (rat_of_nat (unat l')) / T"
    using LL T by (simp add: divide_right_mono)
  moreover have "0 \<le> fl (rat_of_nat (unat l)) / T" using L T by simp
  ultimately have q: "fl (fl (rat_of_nat (unat l)) / T) \<le> fl (fl (rat_of_nat (unat l')) / T)"
    by (intro fl_mono)
  have "0 \<le> fl (fl (rat_of_nat (unat l)) / T)" using L T by (intro fl_nonneg) simp
  then show ?thesis unfolding T_def [symmetric] using q by (intro fl_mono) simp_all
qed

lemma percent_complete:
  fixes t :: "64 word"
  assumes "0 < t"
  shows "js_mul (js_div (js_of_nat (unat t)) (js_of_nat (unat t))) (Fin 100) = Fin 100"
proof -
  have "0 < unat t" using assms by (simp add: word_less_nat_alt)
  then have "1 \<le> rat_of_nat (unat t)" by simp
  then have "fl 1 \<le> fl (rat_of_nat (unat t))" by (intro fl_mono) simp_all
  then have "fl (rat_of_nat (unat t)) \<noteq> 0" by simp
  then show ?thesis by (simp add: js_of_nat_word64 js_of_rat_exact)
qed

lemma percent_nothing:
  fixes t :: "64 word"
  assumes "0 < t"
  shows "js_mul (js_div (js_of_nat (unat (0 :: 64 word))) (js_of_nat (unat t))) (Fin 100) = Fin 0"
proof -
  have "0 < unat t" using assms by (simp add: word_less_nat_alt)
  then have "1 \<le> rat_of_nat (unat t)" by simp
  then have "fl 1 \<le> fl (rat_of_nat (unat t))" by (intro fl_mono) simp_all
  then have "fl (rat_of_nat (unat t)) \<noteq> 0" by simp
  then show ?thesis by (simp add: js_of_nat_word64 js_of_rat_exact)
qed

lemma three_factors:
  fixes a b c u :: rat
  assumes "\<bar>a\<bar> \<le> u" and "\<bar>b\<bar> \<le> u" and "\<bar>c\<bar> \<le> u" and "u \<le> 1"
  shows "(1 - u) * (1 - u) * (1 - u) \<le> (1 + a) * (1 + b) * (1 + c)"
    and "(1 + a) * (1 + b) * (1 + c) \<le> (1 + u) * (1 + u) * (1 + u)"
proof -
  have a: "1 - u \<le> 1 + a" "1 + a \<le> 1 + u" using assms(1) by linarith+
  have b: "1 - u \<le> 1 + b" "1 + b \<le> 1 + u" using assms(2) by linarith+
  have c: "1 - u \<le> 1 + c" "1 + c \<le> 1 + u" using assms(3) by linarith+
  have u: "0 \<le> 1 - u" using assms(4) by simp
  have a0: "0 \<le> 1 + a" using a(1) u by linarith
  have b0: "0 \<le> 1 + b" using b(1) u by linarith
  have c0: "0 \<le> 1 + c" using c(1) u by linarith
  have lo2: "(1 - u) * (1 - u) \<le> (1 + a) * (1 + b)" using a(1) b(1) a0 u by (rule mult_mono)
  have ab0: "0 \<le> (1 + a) * (1 + b)" using a0 b0 by simp
  show "(1 - u) * (1 - u) * (1 - u) \<le> (1 + a) * (1 + b) * (1 + c)"
    by (rule mult_mono [OF lo2 c(1) ab0 u])
  have u1: "0 \<le> 1 + u" using assms(1) by linarith
  have hi2: "(1 + a) * (1 + b) \<le> (1 + u) * (1 + u)" using a(2) b(2) u1 b0 by (rule mult_mono)
  have uu0: "0 \<le> (1 + u) * (1 + u)" using u1 by simp
  show "(1 + a) * (1 + b) * (1 + c) \<le> (1 + u) * (1 + u) * (1 + u)"
    by (rule mult_mono [OF hi2 c(2) uu0 c0])
qed

text \<open>
  The computed percentage is the exact one up to the four roundings: its relative
  distance to \<open>loaded / total * 100\<close> is at most \<open>2 ^ - 50\<close>.
\<close>

lemma percent_accuracy:
  fixes l t :: "64 word"
  assumes lt: "l \<le> t" and pos: "0 < t"
  shows "\<bar>fl (fl (fl (rat_of_nat (unat l)) / fl (rat_of_nat (unat t))) * 100)
           - rat_of_nat (unat l) / rat_of_nat (unat t) * 100\<bar>
         \<le> rat_of_nat (unat l) / rat_of_nat (unat t) * 100 / 2 ^ 50"
proof (cases "unat l = 0")
  case True
  then show ?thesis by simp
next
  case False
  define L where "L = rat_of_nat (unat l)"
  define T where "T = rat_of_nat (unat t)"
  define u :: rat where "u = 1 / 2 ^ 53"
  have L1: "1 \<le> L" using False by (simp add: L_def)
  have "unat l \<le> unat t" using lt by (simp add: word_le_nat_alt)
  then have LT: "L \<le> T" by (simp add: L_def T_def)
  then have T1: "1 \<le> T" using L1 by simp
  have "unat t < 2 ^ 64" using unsigned_less [of t, where ?'a = nat] by simp
  then have "unat t \<le> 2 ^ 64" by simp
  then have "rat_of_nat (unat t) \<le> rat_of_nat (2 ^ 64)" by (simp only: of_nat_le_iff)
  then have T64: "T \<le> 2 ^ 64" by (simp add: T_def)
  have small: "(2 :: rat) powi (- 1022) \<le> 1 / 2 ^ 66"
  proof -
    have "(2 :: rat) powi (- 1022) \<le> 2 powi (- 66)" by (rule two_powi_mono) simp
    then show ?thesis by (simp add: power_int_minus field_simps)
  qed
  have c0: "(1 :: rat) / 2 ^ 66 \<le> 1" and c1: "(1 :: rat) / 2 ^ 66 \<le> 1 / 2 ^ 64"
    and c2: "(1 :: rat) / 2 ^ 66 \<le> 1 / 2 ^ 64 * 100" by simp_all
  have "2 powi (- 1022) \<le> L" using small L1 c0 by linarith
  then obtain d1 where d1: "fl L = L * (1 + d1)" "\<bar>d1\<bar> \<le> 1 / 2 ^ 53" by (rule fl_relative)
  have "2 powi (- 1022) \<le> T" using small T1 c0 by linarith
  then obtain d2 where d2: "fl T = T * (1 + d2)" "\<bar>d2\<bar> \<le> 1 / 2 ^ 53" by (rule fl_relative)
  have a1: "1 \<le> fl L" using fl_mono [of 1 L] L1 by simp
  have b1: "1 \<le> fl T" using fl_mono [of 1 T] T1 by simp
  have "fl T \<le> fl (2 powi 64)" using T64 T1 by (intro fl_mono) simp_all
  also have "fl (2 powi 64) = 2 powi 64" by (rule fl_two_powi) simp
  finally have b64: "fl T \<le> 2 ^ 64" by simp
  define r where "r = fl L / fl T"
  have "1 / 2 ^ 64 \<le> 1 / fl T" using b64 b1 by (intro divide_left_mono) simp_all
  also have "1 / fl T \<le> fl L / fl T" using a1 b1 by (intro divide_right_mono) simp_all
  finally have r64: "1 / 2 ^ 64 \<le> r" by (simp add: r_def)
  then have "2 powi (- 1022) \<le> r" using small c1 by linarith
  then obtain d3 where d3: "fl r = r * (1 + d3)" "\<bar>d3\<bar> \<le> 1 / 2 ^ 53" by (rule fl_relative)
  have "fl (1 / 2 ^ 64) \<le> fl r" using r64 by (intro fl_mono) simp_all
  moreover have "fl (2 powi (- 64)) = 2 powi (- 64)" by (rule fl_two_powi) simp
  then have "fl (1 / 2 ^ 64) = 1 / 2 ^ 64" by (simp add: power_int_minus field_simps)
  ultimately have "1 / 2 ^ 64 \<le> fl r" by simp
  then have "1 / 2 ^ 64 * 100 \<le> fl r * 100" by (intro mult_right_mono) simp_all
  then have "2 powi (- 1022) \<le> fl r * 100" using small c2 by linarith
  then obtain d4 where d4: "fl (fl r * 100) = fl r * 100 * (1 + d4)" "\<bar>d4\<bar> \<le> 1 / 2 ^ 53"
    by (rule fl_relative)
  define E where "E = L / T * 100"
  define P where "P = (1 + d1) * (1 + d3) * (1 + d4)"
  define Q where "Q = 1 + d2"
  have E0: "0 \<le> E" using L1 T1 by (simp add: E_def)
  have Q: "1 - u \<le> Q" "Q \<le> 1 + u" using d2(2) unfolding Q_def u_def by linarith+
  have Qpos: "0 < Q" using Q(1) by (simp add: u_def)
  have Tpos: "0 < T" using T1 by simp
  have val: "fl (fl r * 100) = E * (P / Q)"
  proof -
    define A1 where "A1 = 1 + d1"
    define A3 where "A3 = 1 + d3"
    define A4 where "A4 = 1 + d4"
    have e4: "fl (fl r * 100) = fl r * 100 * A4" unfolding A4_def by (rule d4(1))
    have e3: "fl r = r * A3" unfolding A3_def by (rule d3(1))
    have er: "r = L * A1 / (T * Q)" by (simp add: r_def d1(1) d2(1) A1_def Q_def)
    have rhs: "fl r * 100 * A4 = L / T * 100 * (A1 * A3 * A4 / Q)"
      by (subst e3, subst er) simp
    show ?thesis
      by (subst e4, subst rhs) (simp add: E_def P_def A1_def A3_def A4_def)
  qed
  have u1: "u \<le> 1" by (simp add: u_def)
  note P3 = three_factors [OF d1(2) [folded u_def] d3(2) [folded u_def] d4(2) [folded u_def] u1,
      folded P_def]
  have up: "P \<le> (1 + 8 * u) * Q"
  proof -
    have "(1 + u) * (1 + u) * (1 + u) \<le> (1 + 8 * u) * (1 - u)" by (simp add: u_def)
    also have "\<dots> \<le> (1 + 8 * u) * Q" using Q(1) by (intro mult_left_mono) (simp_all add: u_def)
    finally show ?thesis using P3(2) by linarith
  qed
  have dn: "(1 - 8 * u) * Q \<le> P"
  proof -
    have "(1 - 8 * u) * Q \<le> (1 - 8 * u) * (1 + u)"
      using Q(2) by (intro mult_left_mono) (simp_all add: u_def)
    also have "\<dots> \<le> (1 - u) * (1 - u) * (1 - u)" by (simp add: u_def)
    finally show ?thesis using P3(1) by linarith
  qed
  have "P / Q \<le> 1 + 8 * u" using up Qpos by (simp add: pos_divide_le_eq)
  moreover have "1 - 8 * u \<le> P / Q" using dn Qpos by (simp add: pos_le_divide_eq)
  ultimately have "\<bar>P / Q - 1\<bar> \<le> 8 * u" by linarith
  then have "E * \<bar>P / Q - 1\<bar> \<le> E * (8 * u)" using E0 by (rule mult_left_mono)
  moreover have "\<bar>E * (P / Q) - E\<bar> = E * \<bar>P / Q - 1\<bar>"
  proof -
    have "E * (P / Q) - E = E * (P / Q - 1)" by (simp add: algebra_simps)
    then show ?thesis using E0 by (simp add: abs_mult)
  qed
  moreover have "E * (8 * u) = E / 2 ^ 50" by (simp add: u_def)
  ultimately have "\<bar>fl (fl r * 100) - E\<bar> \<le> E / 2 ^ 50" unfolding val by simp
  then show ?thesis by (simp add: r_def E_def L_def T_def)
qed

text \<open>
  Claim C2, as amended: the value passed to \<open>onProgress\<close> is the percentage
  \<open>loaded / total * 100\<close>, computed in doubles. When the browser reports, in every event
  with a computable length, the same positive total \<open>T\<close> and a loaded count of at most
  \<open>T\<close> that does not decrease from one event to the next, every value passed is within
  a relative distance of \<open>2 ^ - 50\<close> of the exact percentage and lies in \<open>[0, 100]\<close>,
  and the values are non-decreasing; the value is 100 once all \<open>T\<close> bytes are loaded,
  and 0 while none is.
\<close>

theorem uploadToPresignedUrl_progress_percent:
  assumes tot: "\<forall>e \<in> set (progress_events run). lengthComputable e \<longrightarrow> total e = T \<and> loaded e \<le> T"
    and pos: "0 < T"
    and mono: "sorted (map loaded (filter lengthComputable (progress_events run)))"
  shows "recorded_progress run =
           map (\<lambda>e. js_mul (js_div (js_of_nat (unat (loaded e))) (js_of_nat (unat T))) (Fin 100))
             (filter lengthComputable (progress_events run))
       \<and> (\<forall>e \<in> set (filter lengthComputable (progress_events run)).
             \<exists>q. js_mul (js_div (js_of_nat (unat (loaded e))) (js_of_nat (unat T))) (Fin 100) = Fin q
                \<and> \<bar>q - rat_of_nat (unat (loaded e)) / rat_of_nat (unat T) * 100\<bar>
                    \<le> rat_of_nat (unat (loaded e)) / rat_of_nat (unat T) * 100 / 2 ^ 50)
       \<and> (\<exists>qs. recorded_progress run = map Fin qs
              \<and> (\<forall>q \<in> set qs. 0 \<le> q \<and> q \<le> 100) \<and> sorted qs)
       \<and> js_mul (js_div (js_of_nat (unat T)) (js_of_nat (unat T))) (Fin 100) = Fin 100
       \<and> js_mul (js_div (js_of_nat (unat (0 :: 64 word))) (js_of_nat (unat T))) (Fin 100) = Fin 0"
proof (intro conjI)
  define evs where "evs = filter lengthComputable (progress_events run)"
  define pct where "pct = (\<lambda>l :: 64 word.
      fl (fl (fl (rat_of_nat (unat l)) / fl (rat_of_nat (unat T))) * 100))"
  have ev: "\<And>e. e \<in> set evs \<Longrightarrow> total e = T \<and> loaded e \<le> T"
    using tot by (auto simp: evs_def)
  have "map progress_value evs =
      map (\<lambda>e. js_mul (js_div (js_of_nat (unat (loaded e))) (js_of_nat (unat T))) (Fin 100)) evs"
    using ev by (simp add: progress_value_def)
  then show "recorded_progress run =
           map (\<lambda>e. js_mul (js_div (js_of_nat (unat (loaded e))) (js_of_nat (unat T))) (Fin 100))
             (filter lengthComputable (progress_events run))"
    by (simp add: recorded_progress_eq evs_def)
  show "\<forall>e \<in> set (filter lengthComputable (progress_events run)).
             \<exists>q. js_mul (js_div (js_of_nat (unat (loaded e))) (js_of_nat (unat T))) (Fin 100) = Fin q
                \<and> \<bar>q - rat_of_nat (unat (loaded e)) / rat_of_nat (unat T) * 100\<bar>
                    \<le> rat_of_nat (unat (loaded e)) / rat_of_nat (unat T) * 100 / 2 ^ 50"
  proof
    fix e
    assume "e \<in> set (filter lengthComputable (progress_events run))"
    then have le: "loaded e \<le> T" using ev by (simp add: evs_def)
    show "\<exists>q. js_mul (js_div (js_of_nat (unat (loaded e))) (js_of_nat (unat T))) (Fin 100) = Fin q
                \<and> \<bar>q - rat_of_nat (unat (loaded e)) / rat_of_nat (unat T) * 100\<bar>
                    \<le> rat_of_nat (unat (loaded e)) / rat_of_nat (unat T) * 100 / 2 ^ 50"
      using percent_value(1) [OF le pos] percent_accuracy [OF le pos] by blast
  qed
  have val: "map progress_value evs = map Fin (map (pct \<circ> loaded) evs)"
    using ev pos by (simp add: progress_value_def pct_def percent_value(1))
  have rng: "\<forall>q \<in> set (map (pct \<circ> loaded) evs). 0 \<le> q \<and> q \<le> 100"
    using ev pos by (auto simp: pct_def percent_value(2,3))
  have pct_mono: "pct a \<le> pct b" if "a \<le> b" for a b
    unfolding pct_def using that pos by (rule percent_mono)
  have "sorted (map pct (map loaded evs))"
    using mono unfolding evs_def [symmetric]
    by (simp add: sorted_map sorted_wrt_map pct_mono sorted_wrt_mono_rel [where P = "\<lambda>x y. loaded x \<le> loaded y"])
  then have srt: "sorted (map (pct \<circ> loaded) evs)" by simp
  show "\<exists>qs. recorded_progress run = map Fin qs
              \<and> (\<forall>q \<in> set qs. 0 \<le> q \<and> q \<le> 100) \<and> sorted qs"
    using val srt rng unfolding recorded_progress_eq evs_def [symmetric] by blast
  show "js_mul (js_div (js_of_nat (unat T)) (js_of_nat (unat T))) (Fin 100) = Fin 100"
    using pos by (rule percent_complete)
  show "js_mul (js_div (js_of_nat (unat (0 :: 64 word))) (js_of_nat (unat T))) (Fin 100) = Fin 0"
    using pos by (rule percent_nothing)
qed

theorem uploadToPresignedUrl_progress_percent_witness:
  "recorded_progress
      \<lparr>progress_events =
         [\<lparr>lengthComputable = True, loaded = 0, total = 10\<rparr>,
          \<lparr>lengthComputable = True, loaded = 5, total = 10\<rparr>,
          \<lparr>lengthComputable = False, loaded = 7, total = 0\<rparr>,
          \<lparr>lengthComputable = True, loaded = 10, total = 10\<rparr>],
       outcome = Load 200\<rparr> = [Fin 0, Fin 50, Fin 100]"
  using uploadToPresignedUrl_progress_percent [of
      "\<lparr>progress_events =
         [\<lparr>lengthComputable = True, loaded = 0, total = 10\<rparr>,
          \<lparr>lengthComputable = True, loaded = 5, total = 10\<rparr>,
          \<lparr>lengthComputable = False, loaded = 7, total = 0\<rparr>,
          \<lparr>lengthComputable = True, loaded = 10, total = 10\<rparr>],
       outcome = Load 200\<rparr>" 10]
  by (simp add: js_of_rat_exact)

text \<open>
  Claim C2 as stated fails: when all ten bytes of a payload have been sent, the callback
  receives 100, which is not a fraction in \<open>[0, 1]\<close>.
\<close>

theorem uploadToPresignedUrl_progress_counterexample:
  "recorded_progress
      \<lparr>progress_events = [\<lparr>lengthComputable = True, loaded = 10, total = 10\<rparr>],
       outcome = Load 200\<rparr> = [Fin 100]
   \<and> \<not> unit_fraction (Fin 100)"
  by (simp add: recorded_progress_eq progress_value_def js_of_rat_exact unit_fraction_def)

section \<open>The loop, one iteration at a time\<close>

lemma upload_loop_end:
  "\<not> i < length fs \<Longrightarrow> upload_loop env auth cols i fs = ((fs, []), None)"
  by (subst upload_loop.simps) simp

lemma upload_loop_undefined:
  "i < length fs \<Longrightarrow> element fs i = None \<Longrightarrow>
   upload_loop env auth cols i fs = ((fs, []), Some TypeError_undefined)"
  by (subst upload_loop.simps) simp

lemma upload_loop_skip:
  "i < length fs \<Longrightarrow> element fs i = Some f \<Longrightarrow> \<not> ready f \<Longrightarrow>
   upload_loop env auth cols i fs = upload_loop env auth cols (Suc i) fs"
  by (subst upload_loop.simps) (auto simp: ready_def)

lemma upload_loop_step:
  "i < length fs \<Longrightarrow> element fs i = Some f \<Longrightarrow> ready f \<Longrightarrow>
   upload_loop env auth cols i fs =
     (let step = upload_file (env i) auth cols i (the (processed f)) fs;
          rest = upload_loop env auth cols (Suc i) (fst step)
      in ((fst (fst rest), snd step @ snd (fst rest)), snd rest))"
  by (subst upload_loop.simps) (auto simp: ready_def)

text \<open>
  Induction along the loop: a property of the run from \<open>i\<close> follows from the same
  property of the run from \<open>i + 1\<close>, on the array the iteration leaves.
\<close>

lemma upload_loop_induct [case_names End Undefined Skip Step]:
  assumes "\<And>i fs. \<not> i < length fs \<Longrightarrow> P i fs"
    and "\<And>i fs. i < length fs \<Longrightarrow> element fs i = None \<Longrightarrow> P i fs"
    and "\<And>i fs f. i < length fs \<Longrightarrow> element fs i = Some f \<Longrightarrow> \<not> ready f \<Longrightarrow>
           P (Suc i) fs \<Longrightarrow> P i fs"
    and "\<And>i fs f. i < length fs \<Longrightarrow> element fs i = Some f \<Longrightarrow> ready f \<Longrightarrow>
           P (Suc i) (fst (upload_file (env i) auth cols i (the (processed f)) fs)) \<Longrightarrow> P i fs"
  shows "P i fs"
proof (induction "length fs - i" arbitrary: i fs rule: less_induct)
  case less
  show ?case
  proof (cases "i < length fs")
    case False
    then show ?thesis by (rule assms(1))
  next
    case True
    show ?thesis
    proof (cases "element fs i")
      case None
      with True show ?thesis by (rule assms(2))
    next
      case (Some f)
      show ?thesis
      proof (cases "ready f")
        case False
        have "P (Suc i) fs" using True by (intro less) simp
        with True Some False show ?thesis by (rule assms(3))
      next
        case rf: True
        let ?fs' = "fst (upload_file (env i) auth cols i (the (processed f)) fs)"
        have "length ?fs' = length fs" using True by (rule length_upload_file)
        then have "P (Suc i) ?fs'" using True by (intro less) simp
        with True Some rf show ?thesis by (rule assms(4))
      qed
    qed
  qed
qed

section \<open>Properties of the calls of a batch\<close>








section \<open>The precondition of a batch\<close>

lemma filter_ready_set:
  "filter_ready a = Some r \<Longrightarrow> set r = {f. Obj f \<in> set a \<and> ready f}"
proof (induction a arbitrary: r)
  case Nil
  then show ?case by simp
next
  case (Cons s a)
  show ?case
  proof (cases s)
    case Empty_slot
    then show ?thesis using Cons by simp
  next
    case Undefined
    then show ?thesis using Cons.prems by simp
  next
    case (Obj f)
    then obtain r' where r': "filter_ready a = Some r'" and r: "r = (if ready f then f # r' else r')"
      using Cons.prems by (cases "filter_ready a") simp_all
    have ih: "set r' = {g. Obj g \<in> set a \<and> ready g}" using Cons.IH [OF r'] .
    have "set r = (if ready f then insert f (set r') else set r')" using r by simp
    also have "\<dots> = {g. Obj g \<in> set (s # a) \<and> ready g}"
      unfolding ih Obj by (cases "ready f") (simp_all, blast+)
    finally show ?thesis .
  qed
qed

lemma handleUpload_not_started:
  assumes "selectedCollections m = [] \<or> \<not> (\<exists>f. Obj f \<in> set (files m) \<and> ready f)"
  shows "state_after (handleUpload env authKey m) = m
       \<and> calls (handleUpload env authKey m) = []
       \<and> \<not> completed (handleUpload env authKey m)"
proof (cases "selectedCollections m = []")
  case True
  then show ?thesis by (simp add: handleUpload_def rejected_def)
next
  case False
  with assms have none: "\<not> (\<exists>f. Obj f \<in> set (files m) \<and> ready f)" by simp
  show ?thesis
  proof (cases "filter_ready (files m)")
    case None
    then show ?thesis using False by (simp add: handleUpload_def)
  next
    case (Some r)
    then have "set r = {}" using filter_ready_set [OF Some] none by auto
    then show ?thesis using False Some by (simp add: handleUpload_def rejected_def)
  qed
qed

text \<open>
  Claim C1: when no destination collection is selected, or no file is pending with a
  derived payload, \<open>handleUpload\<close> leaves the modal's state as it was (every file with
  its status, progress, error and payload), issues no call at all (no acquisition, no
  transfer, no record creation) and does not signal completion.
\<close>

theorem handleUpload_precondition:
  assumes "selectedCollections m = [] \<or> \<not> (\<exists>f. Obj f \<in> set (files m) \<and> ready f)"
  shows "state_after (handleUpload env authKey m) = m
       \<and> calls (handleUpload env authKey m) = []
       \<and> \<not> completed (handleUpload env authKey m)"
  using assms by (rule handleUpload_not_started)

theorem handleUpload_precondition_witness:
  "state_after (handleUpload (\<lambda>i. good_network) (Some ''key'')
      \<lparr>files = [Obj (ready_entry photo_png)], selectedCollections = [], uploading = False\<rparr>)
     = \<lparr>files = [Obj (ready_entry photo_png)], selectedCollections = [], uploading = False\<rparr>
   \<and> calls (handleUpload (\<lambda>i. good_network) (Some ''key'')
      \<lparr>files = [Obj (ready_entry photo_png)], selectedCollections = [], uploading = False\<rparr>) = []
   \<and> calls (handleUpload (\<lambda>i. good_network) (Some ''key'')
      \<lparr>files = [Obj (entry photo_png None Processing None)],
       selectedCollections = [''landscapes''], uploading = False\<rparr>) = []"
proof -
  let ?m1 = "\<lparr>files = [Obj (ready_entry photo_png)], selectedCollections = [], uploading = False\<rparr>"
  let ?m2 = "\<lparr>files = [Obj (entry photo_png None Processing None)],
       selectedCollections = [''landscapes''], uploading = False\<rparr>"
  have h1: "selectedCollections ?m1 = [] \<or> \<not> (\<exists>f. Obj f \<in> set (files ?m1) \<and> ready f)"
    by simp
  have "\<not> (\<exists>f. Obj f \<in> set (files ?m2) \<and> ready f)"
    by (simp add: ready_def entry_def)
  then have h2: "selectedCollections ?m2 = [] \<or> \<not> (\<exists>f. Obj f \<in> set (files ?m2) \<and> ready f)"
    by blast
  show ?thesis
    using handleUpload_precondition [OF h1, of "\<lambda>i. good_network" "Some ''key''"]
      handleUpload_precondition [OF h2, of "\<lambda>i. good_network" "Some ''key''"]
    by blast
qed

section \<open>What an update changes\<close>

lemma element_array_copy [simp]: "element (array_copy x) j = element x j"
  by (cases "j < length x"; cases "x ! j") (simp_all add: element_def array_copy_def)

lemma element_array_set:
  "element (array_set i v a) j = (if j = i then Some v else element a j)"
proof (cases "i < length a")
  case True
  then show ?thesis by (simp add: element_def array_set_def)
next
  case False
  then have len: "length a \<le> i" by simp
  show ?thesis
  proof (cases "j < length a")
    case True
    then show ?thesis using len by (simp add: element_def array_set_def nth_append)
  next
    case False
    then show ?thesis using len
      by (cases "j < i") (auto simp: element_def array_set_def nth_append)
  qed
qed

lemma element_updateFileStatus:
  "element (updateFileStatus i st e x) j =
     (if j = i then Some ((spread_object (element x i))\<lparr>status := Some st, error := e\<rparr>)
      else element x j)"
  by (simp add: updateFileStatus_def Let_def element_array_set)

lemma element_updateFileProgress:
  "element (updateFileProgress i p x) j =
     (if j = i then Some ((spread_object (element x i))\<lparr>progress := Some p\<rparr>)
      else element x j)"
  by (simp add: updateFileProgress_def Let_def element_array_set)

lemma upload_file_frame:
  assumes "j \<noteq> i"
  shows "element (fst (upload_file net auth cols i p fs)) j = element fs j"
  by (rule upload_file_invariant [where P = "\<lambda>x. element x j = element fs j"])
    (use assms in \<open>simp_all add: element_updateFileStatus element_updateFileProgress\<close>)





text \<open>
  The loop leaves alone every entry that is not eligible when the batch starts: an
  entry in status \<open>error\<close>, in particular, keeps its status, progress, error message
  and payload.
\<close>

lemma upload_loop_keeps_unready:
  "element fs j = Some g \<Longrightarrow> \<not> ready g \<Longrightarrow>
   element (fst (fst (upload_loop env auth cols k fs))) j = Some g"
proof (induction k fs rule: upload_loop_induct [where env = env and auth = auth and cols = cols])
  case (End i fs)
  then show ?case by (simp add: upload_loop_end)
next
  case (Undefined i fs)
  then show ?case by (simp add: upload_loop_undefined)
next
  case (Skip i fs f)
  then show ?case by (simp add: upload_loop_skip)
next
  case (Step i fs f)
  then have "j \<noteq> i" by auto
  then show ?case using Step by (simp add: upload_loop_step Let_def upload_file_frame)
qed

section \<open>The calls of one file do not depend on the array\<close>






section \<open>Arrays without holes\<close>









section \<open>Completion of a batch\<close>










section \<open>A batch without interference\<close>

lemma events_of_map [simp]: "events_of (map Progress_event evs) = evs"
  by (induction evs) simp_all

lemma list_all_progress_map [simp]: "list_all is_progress_event (map Progress_event evs)"
  by (induction evs) simp_all

lemma quiet_calm [simp]: "quiet (calm net)"
  by (simp add: quiet_def calm_def undisturbed_def)

lemma network_of_calm [simp]: "network_of (calm net) = net"
  by (simp add: network_of_def calm_def undisturbed_def run_of_def)







section \<open>A batch with other handlers running\<close>

lemma snd_uploadToPresignedUrl_s [simp]:
  "snd (uploadToPresignedUrl_s t cb m) = xhr_settle (settles t)"
  by (simp add: uploadToPresignedUrl_s_def)









section \<open>A failing preview transfer\<close>

lemma snd_uploadToPresignedUrl [simp]:
  "snd (uploadToPresignedUrl run cb s) = xhr_settle (outcome run)"
  by (simp add: uploadToPresignedUrl_def)









lemma network_of_simps [simp]:
  "acquire (network_of sc) = acquire_answer sc"
  "put_original (network_of sc) = run_of (original_transfer sc)"
  "put_thumbnail (network_of sc) = run_of (thumbnail_transfer sc)"
  "create_record (network_of sc) = create_answer sc"
  "outcome (run_of t) = settles t"
  "progress_events (run_of t) = events_of (steps t)"
  by (simp_all add: network_of_def run_of_def)





section \<open>One file at a time\<close>














section \<open>Entries in status error\<close>

text \<open>
  Claim C6 at the session \<open>session_before\<close>: the task of \<open>beach.jpg\<close> captured index 1
  when the file was selected; after the removal of \<open>photo.png\<close> index 1 holds
  \<open>broken.jpg\<close>, in status \<open>error\<close>. When the derivation of \<open>beach.jpg\<close> succeeds, its
  completion callback writes to index 1: the entry of \<open>broken.jpg\<close> leaves \<open>error\<close> for
  \<open>pending\<close> and receives the derived payload of \<open>beach.jpg\<close>, without any action of
  the operator on that entry.
\<close>

theorem derivation_callback_overwrites_error_entry:
  "snd session_selected = [1, 2]
   \<and> processImage True (\<lambda>w h. True) 0 (\<lambda>y mo d h mi s. 0) broken_jpg
       = Inl ''Error: Failed to load image''
   \<and> element session_before 1
       = Some (entry broken_jpg None Error (Some ''Error: Failed to load image''))
   \<and> element session_after 1
       = Some (entry broken_jpg (Some (example_processed beach_jpg)) Pending
                 (Some ''Error: Failed to load image''))"
  by code_simp

end
